theory Spec2Isabelle
  imports Complex_Main "HOL-Library.Sublist" "HOL-Library.Log_Nat"
begin

section \<open>Values of the host language\<close>

text \<open>
  The benchmark runner is TypeScript. A value of static type \<^verbatim>\<open>number\<close> is, at run time, an
  IEEE 754 double, and an array read out of range yields \<^verbatim>\<open>undefined\<close>. A finite double is
  modelled by the real number it denotes; the not-a-number value, the two infinities and
  \<^verbatim>\<open>undefined\<close> are constructors of their own, so that \<^verbatim>\<open>0 / 0\<close> and an out-of-range read
  are visible in the model. Signed zeros are not distinguished.
\<close>

datatype jsval = Num real | NaN | PosInfinity | NegInfinity | Undefined

text \<open>
  Every arithmetic operation on doubles returns the double nearest to the exact result, the
  one with the even significand at a tie. \<open>binade x\<close> is the exponent \<open>e\<close> with
  \<open>2^e \<le> |x| < 2^(e+1)\<close>, read off the bit length of \<open>|x|\<close> scaled to an integer and not
  below \<open>-1022\<close>, where the subnormal numbers begin; doubles of that binade are the multiples
  of \<open>ulp x = 2^(e-52)\<close>, and \<open>fl x\<close> is the nearest of them.
\<close>

definition round_half_even :: "real \<Rightarrow> int" where
  "round_half_even q =
     (let f = \<lfloor>q\<rfloor>; d = q - of_int f
      in if d < 1 / 2 then f else if 1 / 2 < d then f + 1 else if even f then f else f + 1)"

definition binade :: "real \<Rightarrow> int" where
  "binade x = max (- 1022) (bitlen \<lfloor>\<bar>x\<bar> * 2 ^ 1074\<rfloor> - 1075)"

definition ulp :: "real \<Rightarrow> real" where
  "ulp x = 2 powi (binade x - 52)"

definition fl :: "real \<Rightarrow> real" where
  "fl x = of_int (round_half_even (x / ulp x)) * ulp x"

text \<open>A rounded result of magnitude \<open>2^1024\<close> or more is infinite.\<close>

definition js_number :: "real \<Rightarrow> jsval" where
  "js_number x =
     (let y = fl x
      in if 2 ^ 1024 \<le> \<bar>y\<bar> then (if 0 < y then PosInfinity else NegInfinity) else Num y)"

text \<open>The sum \<^verbatim>\<open>s + v\<close> of an accumulator and a finite number.\<close>

fun js_add :: "jsval \<Rightarrow> real \<Rightarrow> jsval" where
  "js_add (Num s) v = js_number (s + v)"
| "js_add PosInfinity v = PosInfinity"
| "js_add NegInfinity v = NegInfinity"
| "js_add NaN v = NaN"
| "js_add Undefined v = NaN"

text \<open>The quotient \<^verbatim>\<open>s / d\<close> of an accumulator and a finite number \<open>d\<close>.\<close>

fun js_div :: "jsval \<Rightarrow> real \<Rightarrow> jsval" where
  "js_div (Num a) d =
     (if d = 0 then (if a = 0 then NaN else if 0 < a then PosInfinity else NegInfinity)
      else js_number (a / d))"
| "js_div PosInfinity d = (if d < 0 then NegInfinity else PosInfinity)"
| "js_div NegInfinity d = (if d < 0 then PosInfinity else NegInfinity)"
| "js_div NaN d = NaN"
| "js_div Undefined d = NaN"

text \<open>The array read \<^verbatim>\<open>xs[i]\<close> for an integral index: \<^verbatim>\<open>undefined\<close> out of range.\<close>

definition nth_js :: "real list \<Rightarrow> int \<Rightarrow> jsval" where
  "nth_js xs i = (if 0 \<le> i \<and> i < int (length xs) then Num (xs ! nat i) else Undefined)"

text \<open>Nullish coalescing \<^verbatim>\<open>v ?? d\<close>.\<close>

definition nullish :: "jsval \<Rightarrow> jsval \<Rightarrow> jsval" where
  "nullish v d = (case v of Undefined \<Rightarrow> d | _ \<Rightarrow> v)"

text \<open>The comparison \<^verbatim>\<open>a <= b\<close> on numbers; it is false as soon as one side is not a number.\<close>

fun js_le :: "jsval \<Rightarrow> jsval \<Rightarrow> bool" where
  "js_le (Num a) (Num b) = (a \<le> b)"
| "js_le (Num a) PosInfinity = True"
| "js_le NegInfinity (Num b) = True"
| "js_le NegInfinity NegInfinity = True"
| "js_le NegInfinity PosInfinity = True"
| "js_le PosInfinity PosInfinity = True"
| "js_le _ _ = False"

section \<open>Stats helpers\<close>

text \<open>
  \<^verbatim>\<open>
  function percentile(sorted: number[], p: number): number {
    if (sorted.length === 0) return 0
    const idx = Math.ceil((p / 100) * sorted.length) - 1
    return sorted[Math.max(0, idx)]
  }
  \<close>
  The quotient and the product are rounded. An array has fewer than \<open>2^32\<close> elements, so its
  length is a double, and so are the ceiling and the index. Where the source would meet an
  infinite product, the unbounded value here gives the same read: out of range above, clamped
  to index 0 below.
\<close>

definition percentile :: "real list \<Rightarrow> real \<Rightarrow> jsval" where
  "percentile sorted_ts p =
     (if length sorted_ts = 0 then Num 0
      else let idx = \<lceil>fl (fl (p / 100) * real (length sorted_ts))\<rceil> - 1
           in nth_js sorted_ts (max 0 idx))"

record Stats =
  mean :: jsval
  p50 :: jsval
  p95 :: jsval
  p99 :: jsval
  stat_min :: jsval
  stat_max :: jsval

text \<open>
  \<^verbatim>\<open>
  function computeStats(timings: number[]) {
    const sorted = [...timings].sort((a, b) => a - b)
    const mean   = timings.reduce((s, v) => s + v, 0) / timings.length
    return { mean, p50: percentile(sorted, 50), p95: percentile(sorted, 95),
             p99: percentile(sorted, 99),
             min: sorted[0] ?? 0, max: sorted[sorted.length - 1] ?? 0 }
  }
  \<close>
  The fields \<^verbatim>\<open>min\<close> and \<^verbatim>\<open>max\<close> are \<open>stat_min\<close> and \<open>stat_max\<close> here.
\<close>

definition computeStats :: "real list \<Rightarrow> Stats" where
  "computeStats timings =
     (let sorted_ts = sort timings;
          m = js_div (foldl (\<lambda>s v. js_add s v) (Num 0) timings) (real (length timings))
      in \<lparr> mean = m,
           p50 = percentile sorted_ts 50,
           p95 = percentile sorted_ts 95,
           p99 = percentile sorted_ts 99,
           stat_min = nullish (nth_js sorted_ts 0) (Num 0),
           stat_max = nullish (nth_js sorted_ts (int (length sorted_ts) - 1)) (Num 0) \<rparr>)"

text \<open>
  The index the specification gives for percentile \<open>P\<close> of \<open>n\<close> samples, in exact arithmetic:
  \<open>ceil(P/100 * n) - 1\<close>, clamped to \<open>[0, n-1]\<close>; and the index the code computes, the same
  expression in double arithmetic, clamped below.
\<close>

definition nearest_rank_index :: "real \<Rightarrow> nat \<Rightarrow> nat" where
  "nearest_rank_index p n = nat (min (int n - 1) (max 0 (\<lceil>p / 100 * real n\<rceil> - 1)))"

definition double_rank_index :: "real \<Rightarrow> nat \<Rightarrow> nat" where
  "double_rank_index p n = nat (max 0 (\<lceil>fl (fl (p / 100) * real n)\<rceil> - 1))"

section \<open>Benchmark cases and the registry\<close>

text \<open>
  A lifecycle operation is asynchronous and is awaited by the runner: it either resolves (its
  value is ignored) or rejects with an error. It receives the adapter and the per-case
  context object, which it may mutate, and it acts on the outside world (the database, the
  clock). The world is a type parameter \<open>'w\<close>; an operation returns the rejection, if any,
  the context and the world after the call.
\<close>

datatype error = Error string | TypeError string

datatype DbAdapter = RawSqlAdapter | QueryBuilderAdapter | DataAccessLayerAdapter | PrismaAdapter

type_synonym CaseContext = "string \<rightharpoonup> jsval"

type_synonym 'w lifecycle_op = "DbAdapter \<Rightarrow> CaseContext \<Rightarrow> 'w \<Rightarrow> error option \<times> CaseContext \<times> 'w"

text \<open>
  \<^verbatim>\<open>
  export interface BenchCase {
    name: string; description: string;
    setup?:    (adapter: DbAdapter, ctx: CaseContext) => Promise<void>;
    run:       (adapter: DbAdapter, ctx: CaseContext) => Promise<unknown>;
    teardown?: (adapter: DbAdapter, ctx: CaseContext) => Promise<void>;
  }
  \<close>
\<close>

record 'w BenchCase =
  name :: string
  description :: string
  setup_op :: "'w lifecycle_op option"
  run_op :: "'w lifecycle_op"
  teardown_op :: "'w lifecycle_op option"

text \<open>
  \<^verbatim>\<open>export const caseMap = Object.fromEntries(cases.map((c) => [c.name, c]))\<close>
  is a plain object. A read \<^verbatim>\<open>caseMap[key]\<close> finds the object's own entry (the last one for
  a repeated name); otherwise it follows the prototype chain and finds the members that every
  plain object inherits; otherwise it is \<^verbatim>\<open>undefined\<close>. The inherited members are functions
  (and, for \<^verbatim>\<open>__proto__\<close>, the prototype object): all of them are truthy and none has a
  \<^verbatim>\<open>setup\<close>, \<^verbatim>\<open>run\<close> or \<^verbatim>\<open>teardown\<close> member.
\<close>

definition object_prototype_keys :: "string list" where
  "object_prototype_keys =
     [''constructor'', ''hasOwnProperty'', ''isPrototypeOf'', ''propertyIsEnumerable'',
      ''toLocaleString'', ''toString'', ''valueOf'', ''__proto__'',
      ''__defineGetter__'', ''__defineSetter__'', ''__lookupGetter__'', ''__lookupSetter__'']"

datatype 'w member = Own "'w BenchCase" | Inherited | Missing

definition caseMap :: "'w BenchCase list \<Rightarrow> string \<Rightarrow> 'w member" where
  "caseMap cases key =
     (case map_of (rev (map (\<lambda>c. (name c, c)) cases)) key of
        Some b \<Rightarrow> Own b
      | None \<Rightarrow> if key \<in> set object_prototype_keys then Inherited else Missing)"

text \<open>The truthiness test of \<^verbatim>\<open>if (!bench)\<close> and \<^verbatim>\<open>if (!caseMap[c])\<close>.\<close>

fun truthy :: "'w member \<Rightarrow> bool" where
  "truthy Missing = False"
| "truthy _ = True"

text \<open>The member reads \<^verbatim>\<open>bench.setup\<close>, \<^verbatim>\<open>bench.run\<close>, \<^verbatim>\<open>bench.teardown\<close>.\<close>

fun bench_setup :: "'w member \<Rightarrow> 'w lifecycle_op option" where
  "bench_setup (Own b) = setup_op b"
| "bench_setup _ = None"

fun bench_run :: "'w member \<Rightarrow> 'w lifecycle_op option" where
  "bench_run (Own b) = Some (run_op b)"
| "bench_run _ = None"

fun bench_teardown :: "'w member \<Rightarrow> 'w lifecycle_op option" where
  "bench_teardown (Own b) = teardown_op b"
| "bench_teardown _ = None"

section \<open>Single case execution\<close>

text \<open>
  \<^verbatim>\<open>await bench.run(adapter, ctx)\<close>: calling a member that is not there throws a
  \<^verbatim>\<open>TypeError\<close> at the call.
\<close>

fun invoke_run :: "'w lifecycle_op option \<Rightarrow> 'w lifecycle_op" where
  "invoke_run None a ctx w = (Some (TypeError ''bench.run is not a function''), ctx, w)"
| "invoke_run (Some f) a ctx w = f a ctx w"

text \<open>\<^verbatim>\<open>if (bench.setup) await bench.setup(adapter, ctx)\<close>, and the same for teardown.\<close>

fun invoke_optional :: "'w lifecycle_op option \<Rightarrow> 'w lifecycle_op" where
  "invoke_optional None a ctx w = (None, ctx, w)"
| "invoke_optional (Some f) a ctx w = f a ctx w"

text \<open>
  \<^verbatim>\<open>
  for (let i = 0; i < warmup; i++) {
    try { await bench.run(adapter, ctx) } catch { /* ignore */ }
  }
  \<close>
\<close>

function warmup_loop ::
  "'w lifecycle_op option \<Rightarrow> DbAdapter \<Rightarrow> int \<Rightarrow> int \<Rightarrow> CaseContext \<Rightarrow> 'w \<Rightarrow> CaseContext \<times> 'w" where
  "warmup_loop runp a warmup_n i ctx w =
     (if i < warmup_n then
        (case invoke_run runp a ctx w of
           (_, ctx', w') \<Rightarrow> warmup_loop runp a warmup_n (i + 1) ctx' w')
      else (ctx, w))"
  by pat_completeness auto
termination
  by (relation "measure (\<lambda>(runp, a, warmup_n, i, ctx, w). nat (warmup_n - i))") auto

declare warmup_loop.simps [simp del]

text \<open>
  \<^verbatim>\<open>
  const timings: number[] = []
  let errors = 0
  for (let i = 0; i < iterations; i++) {
    const t0 = performance.now()
    try { await bench.run(adapter, ctx) } catch { errors++ }
    timings.push(performance.now() - t0)
  }
  \<close>
  The clock \<open>now\<close> reads the monotonic time of a world, a non-negative double; the
  difference of two readings is rounded and cannot overflow.
\<close>

function measure_loop ::
  "('w \<Rightarrow> real) \<Rightarrow> 'w lifecycle_op option \<Rightarrow> DbAdapter \<Rightarrow> int \<Rightarrow> int \<Rightarrow> real list \<Rightarrow> int \<Rightarrow>
     CaseContext \<Rightarrow> 'w \<Rightarrow> real list \<times> int \<times> CaseContext \<times> 'w" where
  "measure_loop now runp a iterations_n i timings errs ctx w =
     (if i < iterations_n then
        (let t0 = now w in
         case invoke_run runp a ctx w of
           (r, ctx', w') \<Rightarrow>
             let errs' = (case r of Some _ \<Rightarrow> errs + 1 | None \<Rightarrow> errs);
                 timings' = timings @ [fl (now w' - t0)]
             in measure_loop now runp a iterations_n (i + 1) timings' errs' ctx' w')
      else (timings, errs, ctx, w))"
  by pat_completeness auto
termination
  by (relation "measure (\<lambda>(now, runp, a, iterations_n, i, timings, errs, ctx, w). nat (iterations_n - i))")
    auto

declare measure_loop.simps [simp del]

text \<open>
  \<^verbatim>\<open>
  export interface RunResult {
    adapter: string; case: string; warmup: number; iterations: number;
    timings_ms: number[]; mean, p50, p95, p99, min, max: number; errors: number
  }
  \<close>
  The result is built as \<^verbatim>\<open>{ adapter, case, warmup, iterations, timings_ms, errors,
  ...computeStats(timings) }\<close>: the statistics record extended by the other fields. The counts
  are modelled as integers, as the selection surface of the specification has them (a
  non-negative integer each); a negative count makes a loop run zero times.
\<close>

record RunResult = Stats +
  adapter :: string
  case_name :: string
  warmup :: int
  iterations :: int
  timings_ms :: "real list"
  errors :: int

definition make_result ::
  "string \<Rightarrow> string \<Rightarrow> int \<Rightarrow> int \<Rightarrow> real list \<Rightarrow> int \<Rightarrow> RunResult" where
  "make_result adapterName caseName warmup_n iterations_n timings errs =
     Stats.extend (computeStats timings)
       (RunResult.fields adapterName caseName warmup_n iterations_n timings errs)"

text \<open>
  \<^verbatim>\<open>
  async function runCase(adapter, caseName, adapterName, warmup, iterations) {
    const bench = caseMap[caseName]
    if (!bench) throw new Error(`Unknown case: ${caseName}`)
    const ctx: CaseContext = {}
    if (bench.setup) await bench.setup(adapter, ctx)
    ... warmup loop ... measurement loop ...
    if (bench.teardown) await bench.teardown(adapter, ctx)
    return { adapter: adapterName, case: caseName, warmup, iterations,
             timings_ms: timings, errors, ...computeStats(timings) }
  }
  \<close>
  A rejected promise of \<open>runCase\<close> is \<open>Inl\<close>.
\<close>

definition runCase ::
  "('w \<Rightarrow> real) \<Rightarrow> 'w BenchCase list \<Rightarrow> DbAdapter \<Rightarrow> string \<Rightarrow> string \<Rightarrow> int \<Rightarrow> int \<Rightarrow> 'w \<Rightarrow>
     (error + RunResult) \<times> 'w" where
  "runCase now cases a caseName adapterName warmup_n iterations_n w =
     (let bench = caseMap cases caseName in
      if \<not> truthy bench then (Inl (Error (''Unknown case: '' @ caseName)), w)
      else
        case invoke_optional (bench_setup bench) a Map.empty w of
          (Some e, _, w1) \<Rightarrow> (Inl e, w1)
        | (None, ctx1, w1) \<Rightarrow>
            (case warmup_loop (bench_run bench) a warmup_n 0 ctx1 w1 of
               (ctx2, w2) \<Rightarrow>
                 (case measure_loop now (bench_run bench) a iterations_n 0 [] 0 ctx2 w2 of
                    (timings, errs, ctx3, w3) \<Rightarrow>
                      (case invoke_optional (bench_teardown bench) a ctx3 w3 of
                         (Some e, _, w4) \<Rightarrow> (Inl e, w4)
                       | (None, _, w4) \<Rightarrow>
                           (Inr (make_result adapterName caseName warmup_n iterations_n
                                   timings errs), w4)))))"

text \<open>
  The reading the specification gives of both loops: the measured operation is invoked \<open>k\<close>
  times in sequence, each invocation starting in the context and world the previous one
  left. \<open>invocations\<close> lists, for each call, how it settled and the time that elapsed.
\<close>

fun invocations ::
  "('w \<Rightarrow> real) \<Rightarrow> 'w lifecycle_op option \<Rightarrow> DbAdapter \<Rightarrow> nat \<Rightarrow> CaseContext \<Rightarrow> 'w \<Rightarrow>
     (error option \<times> real) list \<times> CaseContext \<times> 'w" where
  "invocations now runp a 0 ctx w = ([], ctx, w)"
| "invocations now runp a (Suc k) ctx w =
     (case invoke_run runp a ctx w of
        (r, ctx', w') \<Rightarrow>
          (case invocations now runp a k ctx' w' of
             (rest, ctx'', w'') \<Rightarrow> ((r, fl (now w' - now w)) # rest, ctx'', w'')))"

definition rejected :: "(error option \<times> real) list \<Rightarrow> (error option \<times> real) list" where
  "rejected outs = filter (\<lambda>out. fst out \<noteq> None) outs"

section \<open>CSV serialisation\<close>

text \<open>\<^verbatim>\<open>Array.prototype.join\<close> on an array of strings.\<close>

fun join :: "string \<Rightarrow> string list \<Rightarrow> string" where
  "join sep [] = []"
| "join sep [x] = x"
| "join sep (x # y # ys) = x @ sep @ join sep (y # ys)"

text \<open>The decimal digits of a natural number.\<close>

definition digit_char :: "nat \<Rightarrow> char" where
  "digit_char d = ''0123456789'' ! d"

fun digits :: "nat \<Rightarrow> string" where
  "digits n = (if n < 10 then [digit_char n] else digits (n div 10) @ [digit_char (n mod 10)])"

declare digits.simps [simp del]

text \<open>
  The conversion of a number to a string is the platform's. Below \<open>10^21\<close> an integer prints
  as its decimal digits; from \<open>10^21\<close> on the platform switches to exponent notation, which
  depends on the binary representation and is left to a parameter \<open>big\<close>.
\<close>

definition int_toString :: "(real \<Rightarrow> string) \<Rightarrow> int \<Rightarrow> string" where
  "int_toString big i =
     (if i < 0 then ''-'' else []) @
     (if \<bar>i\<bar> < 10 ^ 21 then digits (nat \<bar>i\<bar>) else big (real_of_int \<bar>i\<bar>))"

text \<open>
  \<^verbatim>\<open>Number.prototype.toFixed(f)\<close>, following the language standard: a value that is not
  finite prints by name; otherwise the sign is split off, a magnitude of \<open>10^21\<close> or more
  prints as the platform prints numbers, and a smaller one is rounded to the nearest multiple
  of \<open>10^-f\<close> (the larger one at a tie), whose digits are padded with zeros to \<open>f + 1\<close>
  places and split by the decimal point before the last \<open>f\<close>. On \<^verbatim>\<open>undefined\<close> the member
  read raises.
\<close>

fun toFixed :: "(real \<Rightarrow> string) \<Rightarrow> nat \<Rightarrow> jsval \<Rightarrow> error + string" where
  "toFixed big f Undefined = Inl (TypeError ''Cannot read properties of undefined'')"
| "toFixed big f NaN = Inr ''NaN''"
| "toFixed big f PosInfinity = Inr ''Infinity''"
| "toFixed big f NegInfinity = Inr ''-Infinity''"
| "toFixed big f (Num x) =
     Inr ((if x < 0 then ''-'' else []) @
          (if 10 ^ 21 \<le> \<bar>x\<bar> then big \<bar>x\<bar>
           else let n = nat \<lfloor>\<bar>x\<bar> * 10 ^ f + 1 / 2\<rfloor>;
                    m = digits n;
                    m = (if length m \<le> f then replicate (f + 1 - length m) (CHR ''0'') @ m else m);
                    k = length m
                in if f \<noteq> 0 then take (k - f) m @ ''.'' @ drop (k - f) m else m))"

declare toFixed.simps(5) [simp del]

text \<open>Evaluating the elements of an array literal from left to right: the first raise wins.\<close>

fun sequence :: "(error + 'a) list \<Rightarrow> error + 'a list" where
  "sequence [] = Inr []"
| "sequence (Inl e # xs) = Inl e"
| "sequence (Inr x # xs) = (case sequence xs of Inl e \<Rightarrow> Inl e | Inr ys \<Rightarrow> Inr (x # ys))"

text \<open>
  \<^verbatim>\<open>
  function toCsv(results: RunResult[]): string {
    const header = 'adapter,case,iterations,mean_ms,p50_ms,p95_ms,p99_ms,min_ms,max_ms,errors'
    const rows   = results.map(r =>
      [ r.adapter, r.case, r.iterations,
        r.mean.toFixed(3), r.p50.toFixed(3), r.p95.toFixed(3),
        r.p99.toFixed(3),  r.min.toFixed(3), r.max.toFixed(3),
        r.errors ].join(','))
    return [header, ...rows].join('\n')
  }
  \<close>
\<close>

definition csv_header :: string where
  "csv_header = ''adapter,case,iterations,mean_ms,p50_ms,p95_ms,p99_ms,min_ms,max_ms,errors''"

definition csv_cells :: "(real \<Rightarrow> string) \<Rightarrow> RunResult \<Rightarrow> error + string list" where
  "csv_cells big r =
     sequence
       [Inr (adapter r), Inr (case_name r), Inr (int_toString big (iterations r)),
        toFixed big 3 (mean r), toFixed big 3 (p50 r), toFixed big 3 (p95 r),
        toFixed big 3 (p99 r), toFixed big 3 (stat_min r), toFixed big 3 (stat_max r),
        Inr (int_toString big (errors r))]"

definition csv_row :: "(real \<Rightarrow> string) \<Rightarrow> RunResult \<Rightarrow> error + string" where
  "csv_row big r = (case csv_cells big r of Inl e \<Rightarrow> Inl e | Inr cells \<Rightarrow> Inr (join '','' cells))"

definition toCsv :: "(real \<Rightarrow> string) \<Rightarrow> RunResult list \<Rightarrow> error + string" where
  "toCsv big results =
     (case sequence (map (csv_row big) results) of
        Inl e \<Rightarrow> Inl e
      | Inr rows \<Rightarrow> Inr (join [CHR 0x0A] (csv_header # rows)))"

section \<open>The command-line run\<close>

text \<open>
  \<^verbatim>\<open>
  const ADAPTER_NAMES: AdapterName[] = ['raw', 'knex', 'dal', 'orm']
  function createAdapter(name: AdapterName): DbAdapter {
    switch (name) {
      case 'raw':  return new RawSqlAdapter()
      case 'knex': return new QueryBuilderAdapter()
      case 'dal':  return new DataAccessLayerAdapter()
      case 'orm':  return new PrismaAdapter()
      default:     throw new Error(`Unknown adapter: ${name}. Valid: ${ADAPTER_NAMES.join(', ')}`)
    }
  }
  \<close>
  \<open>createAdapter\<close> is the choice of the class. The constructor it runs acts on the world
  (it configures a connection pool); it is an operation of the platform and is taken not to
  raise.
\<close>

definition ADAPTER_NAMES :: "string list" where
  "ADAPTER_NAMES = [''raw'', ''knex'', ''dal'', ''orm'']"

definition createAdapter :: "string \<Rightarrow> error + DbAdapter" where
  "createAdapter nm =
     (if nm = ''raw'' then Inr RawSqlAdapter
      else if nm = ''knex'' then Inr QueryBuilderAdapter
      else if nm = ''dal'' then Inr DataAccessLayerAdapter
      else if nm = ''orm'' then Inr PrismaAdapter
      else Inl (Error (''Unknown adapter: '' @ nm @ ''. Valid: '' @ join '', '' ADAPTER_NAMES)))"

text \<open>
  What the run needs from outside: the monotonic clock, the adapters' constructors and their
  \<^verbatim>\<open>close\<close>, the two file-system calls (each may raise) and the platform's printing of large
  numbers.
\<close>

record 'w platform =
  perf_now :: "'w \<Rightarrow> real"
  construct_op :: "DbAdapter \<Rightarrow> 'w \<Rightarrow> 'w"
  close_op :: "DbAdapter \<Rightarrow> 'w \<Rightarrow> error option \<times> 'w"
  mkdirSync :: "string \<Rightarrow> 'w \<Rightarrow> error option \<times> 'w"
  writeFileSync :: "'w \<Rightarrow> error option \<times> 'w"
  number_toString :: "real \<Rightarrow> string"

text \<open>
  The run is observed through a trace: the messages on the error stream, each adapter
  construction, each call of \<open>runCase\<close>, each call of \<^verbatim>\<open>close\<close>, and the directory and the two
  report files written. The progress lines on the standard output are not modelled, nor are the
  file names (they carry the time of day) and the JSON text (the trace keeps the results it is
  made from).
\<close>

datatype event =
    ConsoleError string
  | MkDir string
  | Created DbAdapter
  | CaseRun DbAdapter string
  | Closed DbAdapter
  | WroteJson "RunResult list"
  | WroteCsv string

record 'w run_state =
  world :: 'w
  trace :: "event list"
  allResults :: "RunResult list"

text \<open>
  \<^verbatim>\<open>
  for (const caseName of caseNames) {
    const result = await runCase(adapter, caseName, adapterName, warmup, iterations)
    allResults.push(result)
  }
  \<close>
  The loop ends at the first case run that rejects; \<open>Some e\<close> is the error in flight.
\<close>

fun cases_loop ::
  "'w platform \<Rightarrow> 'w BenchCase list \<Rightarrow> DbAdapter \<Rightarrow> string \<Rightarrow> int \<Rightarrow> int \<Rightarrow> string list \<Rightarrow>
     'w run_state \<Rightarrow> error option \<times> 'w run_state" where
  "cases_loop pf cases a adapterName warmup_n iterations_n [] st = (None, st)"
| "cases_loop pf cases a adapterName warmup_n iterations_n (caseName # rest) st =
     (case runCase (perf_now pf) cases a caseName adapterName warmup_n iterations_n (world st) of
        (Inl e, w') \<Rightarrow>
          (Some e, st\<lparr> world := w', trace := trace st @ [CaseRun a caseName] \<rparr>)
      | (Inr result, w') \<Rightarrow>
          cases_loop pf cases a adapterName warmup_n iterations_n rest
            (st\<lparr> world := w', trace := trace st @ [CaseRun a caseName],
                 allResults := allResults st @ [result] \<rparr>))"

text \<open>
  \<^verbatim>\<open>
  for (const adapterName of adapterNames) {
    const adapter = createAdapter(adapterName)
    try { ... the loop over the cases ... }
    finally { await adapter.close() }
  }
  \<close>
  The \<^verbatim>\<open>finally\<close> block runs whether the case loop ended normally or not; if \<^verbatim>\<open>close\<close> itself
  rejects, its error replaces the one in flight.
\<close>

fun adapters_loop ::
  "'w platform \<Rightarrow> 'w BenchCase list \<Rightarrow> string list \<Rightarrow> int \<Rightarrow> int \<Rightarrow> string list \<Rightarrow>
     'w run_state \<Rightarrow> error option \<times> 'w run_state" where
  "adapters_loop pf cases caseNames warmup_n iterations_n [] st = (None, st)"
| "adapters_loop pf cases caseNames warmup_n iterations_n (adapterName # rest) st =
     (case createAdapter adapterName of
        Inl e \<Rightarrow> (Some e, st)
      | Inr a \<Rightarrow>
          (case cases_loop pf cases a adapterName warmup_n iterations_n caseNames
                  (st\<lparr> world := construct_op pf a (world st),
                       trace := trace st @ [Created a] \<rparr>) of
             (thrown, st1) \<Rightarrow>
               (case close_op pf a (world st1) of
                  (closed_r, w2) \<Rightarrow>
                    let st2 = st1\<lparr> world := w2, trace := trace st1 @ [Closed a] \<rparr>
                    in (case closed_r of
                          Some e \<Rightarrow> (Some e, st2)
                        | None \<Rightarrow>
                            (case thrown of
                               Some e \<Rightarrow> (Some e, st2)
                             | None \<Rightarrow>
                                 adapters_loop pf cases caseNames warmup_n iterations_n rest st2)))))"

text \<open>
  How the process ends: \<^verbatim>\<open>process.exit(n)\<close> was called, or the promise of \<^verbatim>\<open>main\<close> resolved,
  or it rejected. \<^verbatim>\<open>main().catch(err => { console.error(err); process.exit(1) })\<close> turns a
  rejection into exit status 1.
\<close>

datatype completion = Exited int | Resolved | Rejected error

fun exit_status :: "completion \<Rightarrow> int" where
  "exit_status (Exited n) = n"
| "exit_status Resolved = 0"
| "exit_status (Rejected e) = 1"

text \<open>
  \<^verbatim>\<open>
  const adapterNames = opts.adapter.split(',').map(s => s.trim())
  const caseNames    = opts.case ? opts.case.split(',').map(s => s.trim()) : cases.map(c => c.name)
  for (const a of adapterNames)
    if (!ADAPTER_NAMES.includes(a)) {
      console.error(`Unknown adapter "${a}". Valid: ${ADAPTER_NAMES.join(', ')}`); process.exit(1) }
  for (const c of caseNames)
    if (!caseMap[c]) {
      console.error(`Unknown case "${c}". Valid: ${cases.map(x => x.name).join(', ')}`); process.exit(1) }
  fs.mkdirSync(outDir, { recursive: true })
  ... the loop over the adapters ...
  fs.writeFileSync(jsonPath, JSON.stringify(allResults, null, 2))
  fs.writeFileSync(csvPath,  toCsv(allResults))
  \<close>
  \<open>main\<close> starts from the names already split and trimmed; \<open>caseOpt\<close> is \<open>None\<close> when the
  option is absent.
\<close>

definition unknown_adapter_message :: "string \<Rightarrow> string" where
  "unknown_adapter_message a =
     ''Unknown adapter '' @ [CHR 0x22] @ a @ [CHR 0x22] @ ''. Valid: '' @ join '', '' ADAPTER_NAMES"

definition unknown_case_message :: "'w BenchCase list \<Rightarrow> string \<Rightarrow> string" where
  "unknown_case_message cases c =
     ''Unknown case '' @ [CHR 0x22] @ c @ [CHR 0x22] @ ''. Valid: '' @ join '', '' (map name cases)"

definition persist :: "'w platform \<Rightarrow> 'w run_state \<Rightarrow> completion \<times> 'w run_state" where
  "persist pf st =
     (case writeFileSync pf (world st) of
        (Some e, w1) \<Rightarrow> (Rejected e, st\<lparr> world := w1 \<rparr>)
      | (None, w1) \<Rightarrow>
          let st1 = st\<lparr> world := w1, trace := trace st @ [WroteJson (allResults st)] \<rparr>
          in (case toCsv (number_toString pf) (allResults st) of
                Inl e \<Rightarrow> (Rejected e, st1)
              | Inr csv \<Rightarrow>
                  (case writeFileSync pf w1 of
                     (Some e, w2) \<Rightarrow> (Rejected e, st1\<lparr> world := w2 \<rparr>)
                   | (None, w2) \<Rightarrow>
                       (Resolved, st1\<lparr> world := w2, trace := trace st1 @ [WroteCsv csv] \<rparr>))))"

definition main ::
  "'w platform \<Rightarrow> 'w BenchCase list \<Rightarrow> string list \<Rightarrow> string list option \<Rightarrow> int \<Rightarrow> int \<Rightarrow> string \<Rightarrow>
     'w \<Rightarrow> completion \<times> 'w run_state" where
  "main pf cases adapterNames caseOpt warmup_n iterations_n outDir w =
     (let caseNames = (case caseOpt of Some cs \<Rightarrow> cs | None \<Rightarrow> map name cases) in
      case find (\<lambda>a. a \<notin> set ADAPTER_NAMES) adapterNames of
        Some a \<Rightarrow>
          (Exited 1, \<lparr> world = w, trace = [ConsoleError (unknown_adapter_message a)],
                       allResults = [] \<rparr>)
      | None \<Rightarrow>
          (case find (\<lambda>c. \<not> truthy (caseMap cases c)) caseNames of
             Some c \<Rightarrow>
               (Exited 1, \<lparr> world = w, trace = [ConsoleError (unknown_case_message cases c)],
                            allResults = [] \<rparr>)
           | None \<Rightarrow>
               (case mkdirSync pf outDir w of
                  (Some e, w1) \<Rightarrow> (Rejected e, \<lparr> world = w1, trace = [], allResults = [] \<rparr>)
                | (None, w1) \<Rightarrow>
                    (case adapters_loop pf cases caseNames warmup_n iterations_n adapterNames
                            \<lparr> world = w1, trace = [MkDir outDir], allResults = [] \<rparr> of
                       (Some e, st) \<Rightarrow> (Rejected e, st)
                     | (None, st) \<Rightarrow> persist pf st))))"

text \<open>
  Which operations a run really invokes is read off the world itself. An observing platform
  pairs the world with a log of calls: its constructor, its \<^verbatim>\<open>close\<close> and the lifecycle
  operations of its cases do what the observed ones do and add their own entry to the log when
  they are called; the clock and the file-system calls act on the world and leave the log alone.
\<close>

datatype call = Constructed DbAdapter | Invoked DbAdapter string | Released DbAdapter

definition observe_op :: "string \<Rightarrow> 'w lifecycle_op \<Rightarrow> ('w \<times> call list) lifecycle_op" where
  "observe_op nm f a ctx wl =
     (case f a ctx (fst wl) of (r, ctx', w') \<Rightarrow> (r, ctx', (w', snd wl @ [Invoked a nm])))"

definition observe_case :: "'w BenchCase \<Rightarrow> ('w \<times> call list) BenchCase" where
  "observe_case b =
     \<lparr> name = name b, description = description b,
       setup_op = map_option (observe_op (name b)) (setup_op b),
       run_op = observe_op (name b) (run_op b),
       teardown_op = map_option (observe_op (name b)) (teardown_op b) \<rparr>"

definition observe_platform :: "'w platform \<Rightarrow> ('w \<times> call list) platform" where
  "observe_platform pf =
     \<lparr> perf_now = (\<lambda>wl. perf_now pf (fst wl)),
       construct_op = (\<lambda>a wl. (construct_op pf a (fst wl), snd wl @ [Constructed a])),
       close_op = (\<lambda>a wl. case close_op pf a (fst wl) of
                              (r, w') \<Rightarrow> (r, (w', snd wl @ [Released a]))),
       mkdirSync = (\<lambda>dir wl. case mkdirSync pf dir (fst wl) of (r, w') \<Rightarrow> (r, (w', snd wl))),
       writeFileSync = (\<lambda>wl. case writeFileSync pf (fst wl) of (r, w') \<Rightarrow> (r, (w', snd wl))),
       number_toString = number_toString pf \<rparr>"

definition calls_of :: "('w \<times> call list) run_state \<Rightarrow> call list" where
  "calls_of st = snd (world st)"

text \<open>The state of an observed run without the log.\<close>

definition unobserve :: "('w \<times> call list) run_state \<Rightarrow> 'w run_state" where
  "unobserve st = \<lparr> world = fst (world st), trace = trace st, allResults = allResults st \<rparr>"

text \<open>
  The release discipline, as an automaton over a log of calls whose state is the adapter
  instance currently open: an instance is constructed only when none is open, a lifecycle
  operation is invoked only on the open instance, and \<^verbatim>\<open>close\<close> is called only on the open
  instance, which it ends. \<open>None\<close> is a violation; \<open>released_once\<close> holds when the log is
  accepted and ends with no instance open, so that every instance constructed was closed
  exactly once, after the operations invoked on it.
\<close>

fun discipline :: "DbAdapter option \<Rightarrow> call list \<Rightarrow> DbAdapter option option" where
  "discipline cur [] = Some cur"
| "discipline cur (Constructed a # cs) = (if cur = None then discipline (Some a) cs else None)"
| "discipline cur (Invoked a nm # cs) = (if cur = Some a then discipline cur cs else None)"
| "discipline cur (Released a # cs) = (if cur = Some a then discipline None cs else None)"

definition released_once :: "call list \<Rightarrow> bool" where
  "released_once cs = (discipline None cs = Some None)"

fun constructed :: "call list \<Rightarrow> DbAdapter list" where
  "constructed [] = []"
| "constructed (Constructed a # cs) = a # constructed cs"
| "constructed (_ # cs) = constructed cs"

fun released :: "call list \<Rightarrow> DbAdapter list" where
  "released [] = []"
| "released (Released a # cs) = a # released cs"
| "released (_ # cs) = released cs"

text \<open>
  Two notions for the proofs. A step of a run \<open>keeps the instance\<close> \<open>a\<close> when it leaves the
  log's constructions and releases as they are and, if \<open>a\<close> was the open instance before, it
  still is. An optional lifecycle operation \<open>is observed\<close> when it is absent or logs its calls.
\<close>

definition keeps_instance :: "DbAdapter \<Rightarrow> call list \<Rightarrow> call list \<Rightarrow> bool" where
  "keeps_instance a l l' \<longleftrightarrow>
     (discipline None l = Some (Some a) \<longrightarrow> discipline None l' = Some (Some a))
     \<and> constructed l' = constructed l \<and> released l' = released l"

definition is_observed :: "('w \<times> call list) lifecycle_op option \<Rightarrow> bool" where
  "is_observed fo \<longleftrightarrow> (case fo of None \<Rightarrow> True | Some f \<Rightarrow> \<exists>nm g. f = observe_op nm g)"

section \<open>An example registry\<close>

text \<open>
  A small registry over a world that only counts the calls made so far, with a clock that
  advances by one millisecond per call. It has the \<open>ping\<close> case of the end-to-end scenario
  (no setup, no teardown, the operation returns at once), a case whose operation always
  raises, one whose operation raises on its first two calls only, one whose teardown raises
  and one whose setup raises.
\<close>

definition demo_now :: "nat \<Rightarrow> real" where
  "demo_now w = real w"

definition demo_ok :: "nat lifecycle_op" where
  "demo_ok a ctx w = (None, ctx, Suc w)"

definition demo_raise :: "string \<Rightarrow> nat lifecycle_op" where
  "demo_raise msg a ctx w = (Some (Error msg), ctx, Suc w)"

definition demo_cold :: "nat lifecycle_op" where
  "demo_cold a ctx w = (if w < 2 then Some (Error ''cold'') else None, ctx, Suc w)"

definition demo_cases :: "nat BenchCase list" where
  "demo_cases =
     [\<lparr> name = ''ping'', description = ''returns at once'',
        setup_op = None, run_op = demo_ok, teardown_op = None \<rparr>,
      \<lparr> name = ''always_fails'', description = ''raises on every call'',
        setup_op = None, run_op = demo_raise ''boom'', teardown_op = None \<rparr>,
      \<lparr> name = ''cold_start'', description = ''raises on the first two calls'',
        setup_op = None, run_op = demo_cold, teardown_op = None \<rparr>,
      \<lparr> name = ''bad_teardown'', description = ''teardown raises'',
        setup_op = None, run_op = demo_ok, teardown_op = Some (demo_raise ''teardown failed'') \<rparr>,
      \<lparr> name = ''bad_setup'', description = ''setup raises'',
        setup_op = Some (demo_raise ''setup failed''), run_op = demo_ok, teardown_op = None \<rparr>]"

text \<open>
  The example platform: constructing and closing an adapter and the file-system calls succeed
  and leave the world as it is.
\<close>

definition demo_platform :: "nat platform" where
  "demo_platform =
     \<lparr> perf_now = demo_now,
       construct_op = (\<lambda>a w. w),
       close_op = (\<lambda>a w. (None, w)),
       mkdirSync = (\<lambda>dir w. (None, w)),
       writeFileSync = (\<lambda>w. (None, w)),
       number_toString = (\<lambda>x. ''1e+21'') \<rparr>"

section \<open>Properties of double rounding\<close>

lemma round_half_even_of_int [simp]: "round_half_even (of_int z) = z"
  by (simp add: round_half_even_def)

lemma round_half_even_mono: "a \<le> b \<Longrightarrow> round_half_even a \<le> round_half_even b"
proof -
  assume ab: "a \<le> b"
  have fa: "\<lfloor>a\<rfloor> \<le> \<lfloor>b\<rfloor>" using ab by (rule floor_mono)
  have ra: "round_half_even a \<le> \<lfloor>a\<rfloor> + 1" "\<lfloor>b\<rfloor> \<le> round_half_even b"
    by (simp_all add: round_half_even_def Let_def)
  show ?thesis
  proof (cases "\<lfloor>a\<rfloor> = \<lfloor>b\<rfloor>")
    case True
    then have "a - of_int \<lfloor>a\<rfloor> \<le> b - of_int \<lfloor>b\<rfloor>" using ab by simp
    then show ?thesis using True
      by (auto simp: round_half_even_def Let_def)
  next
    case False
    then have "\<lfloor>a\<rfloor> + 1 \<le> \<lfloor>b\<rfloor>" using fa by linarith
    then show ?thesis using ra by linarith
  qed
qed


lemma binade_ge: "- 1022 \<le> binade x"
  by (simp add: binade_def)

lemma two_powi_shift:
  assumes "- 1074 \<le> e"
  shows "(2 :: real) powi e * 2 ^ 1074 = 2 ^ nat (e + 1074)"
proof -
  have "(2 :: real) powi e * 2 powi 1074 = 2 powi (e + 1074)"
    by (simp add: power_int_add)
  also have "\<dots> = 2 powi int (nat (e + 1074))"
    using assms by simp
  also have "\<dots> = 2 ^ nat (e + 1074)"
    by (rule power_int_of_nat)
  finally show ?thesis by simp
qed

lemma binade_eqI:
  assumes lo: "2 powi e \<le> \<bar>x\<bar>" and hi: "\<bar>x\<bar> < 2 powi (e + 1)" and e: "- 1022 \<le> e"
  shows "binade x = e"
proof -
  define n where "n = nat (e + 1074)"
  define N where "N = \<lfloor>\<bar>x\<bar> * 2 ^ 1074\<rfloor>"
  have n: "int n = e + 1074" using e by (simp add: n_def)
  have "(2 :: real) ^ n = 2 powi e * 2 ^ 1074"
    using two_powi_shift [of e] e by (simp add: n_def)
  also have "\<dots> \<le> \<bar>x\<bar> * 2 ^ 1074"
    using lo by (simp add: mult_right_mono)
  finally have "of_int (2 ^ n) \<le> \<bar>x\<bar> * 2 ^ 1074" by simp
  then have l: "2 ^ n \<le> N" unfolding N_def by (simp only: le_floor_iff)
  have "of_int N \<le> \<bar>x\<bar> * 2 ^ 1074" unfolding N_def by (rule of_int_floor_le)
  also have "\<dots> < 2 powi (e + 1) * 2 ^ 1074"
    using hi by (simp add: mult_strict_right_mono)
  also have "\<dots> = 2 ^ nat (e + 1 + 1074)"
    using two_powi_shift [of "e + 1"] e by simp
  also have "nat (e + 1 + 1074) = Suc n" using e by (simp add: n_def)
  finally have "real_of_int N < of_int (2 ^ Suc n)" by simp
  then have h: "N < 2 ^ Suc n" by (simp only: of_int_less_iff)
  have "bitlen N = int n + 1"
    using bitlen_twopow_add_eq [of "N - 2 ^ n" n] l h by simp
  then have "bitlen N = e + 1075" using n by simp
  then show ?thesis using e by (simp add: binade_def N_def)
qed

lemma binade_small:
  assumes "\<bar>x\<bar> < 2 powi (- 1022)"
  shows "binade x = - 1022"
proof -
  define N where "N = \<lfloor>\<bar>x\<bar> * 2 ^ 1074\<rfloor>"
  have "of_int N \<le> \<bar>x\<bar> * 2 ^ 1074" unfolding N_def by (rule of_int_floor_le)
  also have "\<dots> < 2 powi (- 1022) * 2 ^ 1074"
    using assms by (simp add: mult_strict_right_mono)
  also have "\<dots> = 2 ^ nat (- 1022 + 1074)"
    by (rule two_powi_shift) simp
  finally have "real_of_int N < of_int (2 ^ 52)" by simp
  then have "N < 2 ^ 52" by (simp only: of_int_less_iff)
  then have "bitlen N \<le> 52" by (simp add: bitlen_le_iff_power)
  then show ?thesis by (simp add: binade_def N_def)
qed

lemma binade_bounds:
  assumes "2 powi (- 1022) \<le> \<bar>x\<bar>"
  shows "2 powi binade x \<le> \<bar>x\<bar>" and "\<bar>x\<bar> < 2 powi (binade x + 1)"
proof -
  define e where "e = \<lfloor>log 2 \<bar>x\<bar>\<rfloor>"
  have pos: "0 < \<bar>x\<bar>"
    using assms by (rule less_le_trans [rotated]) simp
  have b: "2 powr real_of_int e \<le> \<bar>x\<bar>" "\<bar>x\<bar> < 2 powr real_of_int (e + 1)"
    using floor_log_eq_powr_iff [of "\<bar>x\<bar>" 2 e] pos by (simp_all add: e_def)
  have pw: "(2 :: real) powr real_of_int k = 2 powi k" for k
    by (rule powr_real_of_int') simp_all
  have lo: "2 powi e \<le> \<bar>x\<bar>" and hi: "\<bar>x\<bar> < 2 powi (e + 1)"
    using b by (simp_all only: pw)
  have "(2 :: real) powi (- 1022) < 2 powi (e + 1)"
    using assms hi by (rule le_less_trans)
  have e: "- 1022 \<le> e"
  proof (rule ccontr)
    assume "\<not> - 1022 \<le> e"
    then have "e + 1 \<le> - 1022" by simp
    then have "(2 :: real) powi (e + 1) \<le> 2 powi (- 1022)"
      by (rule power_int_increasing) simp
    then show False using \<open>(2 :: real) powi (- 1022) < 2 powi (e + 1)\<close> by simp
  qed
  have "binade x = e" using lo hi e by (rule binade_eqI)
  then show "2 powi binade x \<le> \<bar>x\<bar>" and "\<bar>x\<bar> < 2 powi (binade x + 1)"
    using lo hi by simp_all
qed

lemma binade_upper: "\<bar>x\<bar> < 2 powi (binade x + 1)"
proof (cases "2 powi (- 1022) \<le> \<bar>x\<bar>")
  case True
  then show ?thesis by (rule binade_bounds)
next
  case False
  then have s: "\<bar>x\<bar> < 2 powi (- 1022)" by simp
  have "(2 :: real) powi (- 1022) \<le> 2 powi (- 1022 + 1)"
    by (rule power_int_increasing) simp_all
  then show ?thesis using s by (simp add: binade_small [OF s])
qed


lemma ulp_pos: "0 < ulp x"
  by (simp add: ulp_def)

lemma round_half_even_nonneg: "0 \<le> q \<Longrightarrow> 0 \<le> round_half_even q"
  using round_half_even_mono [of 0 q] round_half_even_of_int [of 0] by simp

lemma fl_nonneg: "0 \<le> x \<Longrightarrow> 0 \<le> fl x"
  unfolding fl_def using ulp_pos [of x] round_half_even_nonneg [of "x / ulp x"] by simp

lemma fl_exact:
  assumes x: "x = of_int m * 2 powi j" and m: "\<bar>m\<bar> < 2 ^ 53" and j: "- 1074 \<le> j"
  shows "fl x = x"
proof -
  define b where "b = binade x"
  have bj: "b - 52 \<le> j"
  proof (cases "2 powi (- 1022) \<le> \<bar>x\<bar>")
    case True
    have "2 powi b \<le> \<bar>x\<bar>" unfolding b_def using True by (rule binade_bounds)
    also have "\<bar>x\<bar> = \<bar>of_int m\<bar> * 2 powi j" by (simp add: x abs_mult)
    also have "\<dots> < 2 ^ 53 * 2 powi j"
    proof (rule mult_strict_right_mono)
      have "real_of_int \<bar>m\<bar> < of_int (2 ^ 53)" using m by (simp only: of_int_less_iff)
      then show "\<bar>real_of_int m\<bar> < 2 ^ 53" by simp
    qed simp
    also have "\<dots> = 2 powi (53 + j)" by (simp add: power_int_add)
    finally have lt: "(2 :: real) powi b < 2 powi (53 + j)" .
    show ?thesis
    proof (rule ccontr)
      assume "\<not> b - 52 \<le> j"
      then have "53 + j \<le> b" by simp
      then have "(2 :: real) powi (53 + j) \<le> 2 powi b"
        by (rule power_int_increasing) simp
      then show False using lt by simp
    qed
  next
    case False
    then have "binade x = - 1022" by (simp add: binade_small)
    then show ?thesis using j by (simp add: b_def)
  qed
  define k where "k = nat (j - (b - 52))"
  have k: "int k = j - (b - 52)" using bj by (simp add: k_def)
  have "2 powi j = (2 :: real) powi (int k + (b - 52))" using k by simp
  also have "\<dots> = 2 ^ k * 2 powi (b - 52)" by (simp add: power_int_add)
  finally have pj: "(2 :: real) powi j = 2 ^ k * ulp x" by (simp add: ulp_def b_def)
  have xu: "x = of_int (m * 2 ^ k) * ulp x"
    by (subst x, subst pj) simp
  have "x / ulp x = of_int (m * 2 ^ k) * ulp x / ulp x"
    by (subst xu) (rule refl)
  also have "\<dots> = of_int (m * 2 ^ k)"
    using ulp_pos [of x] by simp
  finally have "round_half_even (x / ulp x) = m * 2 ^ k"
    by (simp only: round_half_even_of_int)
  then have "fl x = of_int (m * 2 ^ k) * ulp x" by (simp only: fl_def)
  then show ?thesis using xu by simp
qed

lemma fl_of_nat: "n < 2 ^ 53 \<Longrightarrow> fl (real n) = real n"
proof -
  assume n: "n < 2 ^ 53"
  from n have "int n < int (2 ^ 53)" by (simp only: of_nat_less_iff)
  then have "\<bar>int n\<bar> < 2 ^ 53" by simp
  then show ?thesis using fl_exact [of "real n" "int n" 0] by simp
qed

lemma fl_upper: "0 \<le> x \<Longrightarrow> fl x \<le> 2 powi (binade x + 1)"
proof -
  assume x: "0 \<le> x"
  have "x < 2 powi (binade x + 1)" using binade_upper [of x] x by simp
  also have "\<dots> = 2 ^ 53 * ulp x" by (simp add: ulp_def power_int_add power_int_diff)
  finally have "x / ulp x \<le> of_int (2 ^ 53)" using ulp_pos [of x] by (simp add: field_simps)
  then have "round_half_even (x / ulp x) \<le> 2 ^ 53"
    using round_half_even_mono [of "x / ulp x" "of_int (2 ^ 53)"]
    by (simp only: round_half_even_of_int)
  then have "real_of_int (round_half_even (x / ulp x)) \<le> of_int (2 ^ 53)"
    by (simp only: of_int_le_iff)
  then have "fl x \<le> 2 ^ 53 * ulp x"
    unfolding fl_def using ulp_pos [of x] by (simp add: mult_right_mono)
  also have "\<dots> = 2 powi (binade x + 1)" by (simp add: ulp_def power_int_add power_int_diff)
  finally show ?thesis .
qed

lemma fl_lower: "2 powi (- 1022) \<le> x \<Longrightarrow> 2 powi binade x \<le> fl x"
proof -
  assume x: "2 powi (- 1022) \<le> x"
  have "(0 :: real) < 2 powi (- 1022)" by simp
  then have x0: "0 < x" using x by (rule less_le_trans)
  have "2 powi binade x \<le> x" using binade_bounds(1) [of x] x x0 by simp
  moreover have "2 powi binade x = 2 ^ 52 * ulp x" by (simp add: ulp_def power_int_add power_int_diff)
  ultimately have "of_int (2 ^ 52) \<le> x / ulp x" using ulp_pos [of x] by (simp add: field_simps)
  then have "2 ^ 52 \<le> round_half_even (x / ulp x)"
    using round_half_even_mono [of "of_int (2 ^ 52)" "x / ulp x"]
    by (simp only: round_half_even_of_int)
  then have "of_int (2 ^ 52) \<le> real_of_int (round_half_even (x / ulp x))"
    by (simp only: of_int_le_iff)
  then have "2 ^ 52 * ulp x \<le> fl x"
    unfolding fl_def using ulp_pos [of x] by (simp add: mult_right_mono)
  then show ?thesis by (simp add: ulp_def power_int_add power_int_diff)
qed

lemma binade_mono:
  assumes "0 \<le> x" "x \<le> y"
  shows "binade x \<le> binade y"
proof -
  have "\<bar>x\<bar> * 2 ^ 1074 \<le> \<bar>y\<bar> * 2 ^ 1074" using assms by (simp add: mult_right_mono)
  then have "\<lfloor>\<bar>x\<bar> * 2 ^ 1074\<rfloor> \<le> \<lfloor>\<bar>y\<bar> * 2 ^ 1074\<rfloor>" by (rule floor_mono)
  then have "bitlen \<lfloor>\<bar>x\<bar> * 2 ^ 1074\<rfloor> \<le> bitlen \<lfloor>\<bar>y\<bar> * 2 ^ 1074\<rfloor>"
    unfolding bitlen_def by (simp add: floorlog_mono nat_mono)
  then show ?thesis by (simp add: binade_def)
qed

lemma fl_mono:
  assumes x: "0 \<le> x" and xy: "x \<le> y"
  shows "fl x \<le> fl y"
proof (cases "binade x = binade y")
  case True
  then have u: "ulp x = ulp y" by (simp add: ulp_def)
  have "x / ulp y \<le> y / ulp y" using xy ulp_pos [of y] by (simp add: divide_right_mono)
  then have "round_half_even (x / ulp y) \<le> round_half_even (y / ulp y)"
    by (rule round_half_even_mono)
  then have "real_of_int (round_half_even (x / ulp y)) \<le> real_of_int (round_half_even (y / ulp y))"
    by (simp only: of_int_le_iff)
  then show ?thesis unfolding fl_def u using ulp_pos [of y] by (simp add: mult_right_mono)
next
  case False
  then have lt: "binade x + 1 \<le> binade y" using binade_mono [OF x xy] by simp
  have y0: "0 \<le> y" using x xy by simp
  have big: "2 powi (- 1022) \<le> y"
  proof (rule ccontr)
    assume "\<not> 2 powi (- 1022) \<le> y"
    then have "\<bar>y\<bar> < 2 powi (- 1022)" using y0 by simp
    then have "binade y = - 1022" by (rule binade_small)
    then show False using lt binade_ge [of x] by simp
  qed
  have "fl x \<le> 2 powi (binade x + 1)" using x by (rule fl_upper)
  also have "\<dots> \<le> 2 powi binade y" using lt by (rule power_int_increasing) simp
  also have "\<dots> \<le> fl y" using big by (rule fl_lower)
  finally show ?thesis .
qed

lemma fl_eval:
  fixes k :: nat
  assumes lo: "2 ^ 52 \<le> \<bar>x\<bar> * 2 ^ k" and hi: "\<bar>x\<bar> * 2 ^ k < 2 ^ 53" and k: "k \<le> 1074"
  shows "fl x = of_int (round_half_even (x * 2 ^ k)) / 2 ^ k"
proof -
  have p: "(2 :: real) powi (52 - int k) * 2 ^ k = 2 ^ 52" "(2 :: real) powi (52 - int k + 1) * 2 ^ k = 2 ^ 53"
    by (simp_all add: power_int_diff)
  have "2 powi (52 - int k) * 2 ^ k \<le> \<bar>x\<bar> * 2 ^ k" using lo by (simp only: p)
  then have l: "2 powi (52 - int k) \<le> \<bar>x\<bar>" by simp
  have "\<bar>x\<bar> * 2 ^ k < 2 powi (52 - int k + 1) * 2 ^ k" using hi by (simp only: p)
  then have h: "\<bar>x\<bar> < 2 powi (52 - int k + 1)" by simp
  have "binade x = 52 - int k"
    using l h by (rule binade_eqI) (use k in simp)
  then have "ulp x = 2 powi (- int k)" by (simp add: ulp_def)
  also have "\<dots> = inverse (2 ^ k)" by (simp only: power_int_minus power_int_of_nat)
  finally have u: "ulp x = inverse (2 ^ k)" .
  show ?thesis unfolding fl_def u by (simp add: divide_inverse)
qed

lemma fl_7_percent: "fl (7 / 100) = 1261007895663739 / 18014398509481984"
  by (subst fl_eval [where k = 56]) (simp_all add: round_half_even_def)

lemma fl_7_percent_100: "fl (1261007895663739 / 18014398509481984 * 100) = 7881299347898369 / 1125899906842624"
  by (subst fl_eval [where k = 50]) (simp_all add: round_half_even_def)

lemma fl_half: "fl (50 / 100) = 1 / 2"
  using fl_exact [of "1 / 2" 1 "- 1"] by simp

lemma fl_95: "fl (95 / 100) = 8556839292003942 / 2 ^ 53"
  by (subst fl_eval [where k = 53]) (simp_all add: round_half_even_def)

lemma fl_99: "fl (99 / 100) = 8917127262193582 / 2 ^ 53"
  by (subst fl_eval [where k = 53]) (simp_all add: round_half_even_def)

lemma fl_small_nat: "fl 0 = 0" "fl 1 = 1" "fl 2 = 2" "fl 3 = 3"
  using fl_of_nat [of 0] fl_of_nat [of 1] fl_of_nat [of 2] fl_of_nat [of 3] by simp_all

lemma round_half_even_upper: "real_of_int (round_half_even q) \<le> q + 1 / 2"
proof -
  have "q - of_int \<lfloor>q\<rfloor> < 1" by linarith
  then show ?thesis
    by (auto simp: round_half_even_def Let_def) linarith+
qed

lemma fl_rel_upper:
  assumes x: "2 powi (- 1022) \<le> x"
  shows "fl x \<le> x * (1 + 1 / 2 ^ 53)"
proof -
  have "(0 :: real) < 2 powi (- 1022)" by simp
  then have x0: "0 < x" using x by (rule less_le_trans)
  have "2 powi binade x \<le> x" using binade_bounds(1) [of x] x x0 by simp
  moreover have "2 powi binade x = 2 ^ 52 * ulp x"
    by (simp add: ulp_def power_int_add power_int_diff)
  ultimately have u: "ulp x \<le> x / 2 ^ 52" by (simp add: field_simps)
  have "fl x \<le> (x / ulp x + 1 / 2) * ulp x"
    unfolding fl_def using round_half_even_upper [of "x / ulp x"] ulp_pos [of x]
    by (simp only: mult_right_mono less_imp_le)
  also have "\<dots> = x + ulp x / 2" using ulp_pos [of x] by (simp add: field_simps)
  also have "\<dots> \<le> x + x / 2 ^ 52 / 2" using u by simp
  also have "\<dots> = x * (1 + 1 / 2 ^ 53)" by (simp add: field_simps)
  finally show ?thesis .
qed

lemma ceiling_fl_between:
  fixes k :: int
  assumes c: "0 \<le> y" and up: "y \<le> of_int k"
    and lo: "of_int k - 1 + 1 / 2 ^ j \<le> y" and k: "0 < k" "k < 2 ^ 40" and j: "j \<le> 12"
  shows "\<lceil>fl y\<rceil> = k"
proof -
  have "\<bar>k\<bar> < 2 ^ 53" using k by simp
  then have fk: "fl (of_int k) = of_int k"
    using fl_exact [of "of_int k" k 0] by simp
  have u: "fl y \<le> of_int k"
    using fl_mono [OF c up] fk by simp
  define m where "m = (k - 1) * 2 ^ j + 1"
  have "(2 :: int) ^ j \<le> 2 ^ 12" by (rule power_increasing) (use j in simp_all)
  moreover have "0 \<le> k - 1" using k by simp
  ultimately have "(k - 1) * 2 ^ j \<le> (k - 1) * 2 ^ 12" by (rule mult_left_mono)
  moreover have "0 \<le> (k - 1) * 2 ^ j" using k by simp
  ultimately have mb: "\<bar>m\<bar> < 2 ^ 53" using k by (simp add: m_def)
  have xm: "of_int k - 1 + 1 / 2 ^ j = of_int m * (2 :: real) powi (- int j)"
    by (simp add: m_def power_int_minus field_simps)
  have "fl (of_int k - 1 + 1 / 2 ^ j) = of_int k - 1 + 1 / 2 ^ j"
    using xm mb by (rule fl_exact) (use j in simp)
  moreover have "0 \<le> of_int k - 1 + 1 / (2 :: real) ^ j" using k by simp
  ultimately have "of_int k - 1 + 1 / 2 ^ j \<le> fl y"
    using fl_mono [OF _ lo] by simp
  moreover have "(0 :: real) < 1 / 2 ^ j" by simp
  ultimately have l: "of_int k - 1 < fl y" by linarith
  show ?thesis using u l by (simp add: ceiling_eq_iff)
qed

text \<open>
  For a ratio \<open>a / d\<close> and a double \<open>c\<close> just below it, the rank computed with \<open>c\<close> in double
  arithmetic is the exact rank, for every array length.
\<close>

lemma rank_agree:
  fixes n a d :: nat
  assumes c: "0 \<le> c" "c \<le> real a / real d"
    and gap: "(real a / real d - c) * 2 ^ 32 \<le> 1 / real d - 1 / 2 ^ j"
    and n: "0 < n" "n < 2 ^ 32" and a: "0 < a" "a \<le> d" and j: "j \<le> 12"
  shows "\<lceil>fl (c * real n)\<rceil> = \<lceil>real a / real d * real n\<rceil>"
proof -
  define r where "r = real a / real d"
  define k where "k = \<lceil>r * real n\<rceil>"
  have d: "0 < d" using a by simp
  have r: "0 < r" "r \<le> 1" using a d by (simp_all add: r_def)
  have kb: "r * real n \<le> of_int k" "of_int k - 1 < r * real n"
    unfolding k_def by linarith+
  have "0 < r * real n" using r n by simp
  then have k0: "0 < k" unfolding k_def by (simp add: less_ceiling_iff)
  have "r * real n \<le> 1 * real n" using r by (intro mult_right_mono) simp_all
  then have "r * real n \<le> of_int (int n)" by simp
  then have "k \<le> int n" unfolding k_def by (rule ceiling_le)
  then have k40: "k < 2 ^ 40" using n by simp
  have "real_of_int (int d * (k - 1)) < real_of_int (int a * int n)"
    using kb(2) d by (simp add: r_def field_simps)
  then have "int d * (k - 1) < int a * int n" by (simp only: of_int_less_iff)
  then have "int d * (k - 1) + 1 \<le> int a * int n" by simp
  then have "real_of_int (int d * (k - 1) + 1) \<le> real_of_int (int a * int n)"
    by (simp only: of_int_le_iff)
  then have I: "real d * (of_int k - 1) + 1 \<le> real a * real n" by simp
  have "of_int k - 1 + 1 / real d = (real d * (of_int k - 1) + 1) / real d"
    using d by (simp add: add_divide_distrib)
  also have "\<dots> \<le> (real a * real n) / real d"
    using I d by (simp only: divide_right_mono of_nat_0_le_iff)
  also have "\<dots> = r * real n" by (simp add: r_def)
  finally have ex: "of_int k - 1 + 1 / real d \<le> r * real n" .
  have "0 \<le> r - c" using c by (simp add: r_def)
  then have "(r - c) * real n \<le> (r - c) * 2 ^ 32"
    using n by (intro mult_left_mono) simp_all
  then have "(r - c) * real n \<le> 1 / real d - 1 / 2 ^ j"
    using gap by (simp add: r_def)
  then have lo: "of_int k - 1 + 1 / 2 ^ j \<le> c * real n"
    using ex by (simp add: algebra_simps)
  have "c * real n \<le> r * real n"
    using c by (intro mult_right_mono) (simp_all add: r_def)
  then have up: "c * real n \<le> of_int k" using kb by linarith
  have "0 \<le> c * real n" using c by simp
  then have "\<lceil>fl (c * real n)\<rceil> = k"
    using up lo k0 k40 j by (rule ceiling_fl_between)
  then show ?thesis by (simp add: k_def r_def)
qed

section \<open>Properties of the statistics\<close>

lemma rank_bounds:
  assumes "0 < n" "0 < p" "p \<le> 100"
  shows "1 \<le> \<lceil>p / 100 * real n\<rceil>" and "\<lceil>p / 100 * real n\<rceil> \<le> int n"
proof -
  have "0 < p / 100 * real n" using assms by simp
  then show "1 \<le> \<lceil>p / 100 * real n\<rceil>" by (simp add: less_ceiling_iff)
  have "p / 100 \<le> 1" using assms by simp
  then have "p / 100 * real n \<le> 1 * real n"
    by (rule mult_right_mono) simp
  then have "p / 100 * real n \<le> of_int (int n)" by simp
  then show "\<lceil>p / 100 * real n\<rceil> \<le> int n" by (rule ceiling_le)
qed

lemma rank_index_less: "0 < n \<Longrightarrow> nearest_rank_index p n < n"
proof -
  assume n: "0 < n"
  define c where "c = \<lceil>p / 100 * real n\<rceil>"
  have "nat (min (int n - 1) (max 0 (c - 1))) < n"
    using n by linarith
  then show ?thesis by (simp only: nearest_rank_index_def c_def)
qed

lemma double_rank_mono:
  assumes "0 \<le> p" "p \<le> q"
  shows "double_rank_index p n \<le> double_rank_index q n"
proof -
  define c where "c = \<lceil>fl (fl (p / 100) * real n)\<rceil>"
  define d where "d = \<lceil>fl (fl (q / 100) * real n)\<rceil>"
  have "fl (p / 100) \<le> fl (q / 100)"
    using assms by (intro fl_mono) simp_all
  then have le: "fl (p / 100) * real n \<le> fl (q / 100) * real n"
    by (rule mult_right_mono) simp
  have "0 \<le> fl (p / 100)" using assms by (intro fl_nonneg) simp
  then have "0 \<le> fl (p / 100) * real n" by simp
  then have "fl (fl (p / 100) * real n) \<le> fl (fl (q / 100) * real n)"
    using le by (rule fl_mono)
  then have "c \<le> d" unfolding c_def d_def by (rule ceiling_mono)
  then have "nat (max 0 (c - 1)) \<le> nat (max 0 (d - 1))" by linarith
  then show ?thesis by (simp only: double_rank_index_def c_def d_def)
qed

lemma double_rank_less:
  assumes n: "0 < n" "n < 2 ^ 53" and p: "0 \<le> p" "p \<le> 100"
  shows "double_rank_index p n < n"
proof -
  define c where "c = \<lceil>fl (fl (p / 100) * real n)\<rceil>"
  have "fl (p / 100) \<le> fl 1" using p by (intro fl_mono) simp_all
  then have c1: "fl (p / 100) \<le> 1" by (simp add: fl_small_nat)
  have c0: "0 \<le> fl (p / 100)" using p by (intro fl_nonneg) simp
  have "fl (p / 100) * real n \<le> 1 * real n" using c1 by (rule mult_right_mono) simp
  then have le: "fl (p / 100) * real n \<le> real n" by simp
  have "0 \<le> fl (p / 100) * real n" using c0 by simp
  then have "fl (fl (p / 100) * real n) \<le> fl (real n)"
    using le by (rule fl_mono)
  then have "fl (fl (p / 100) * real n) \<le> of_int (int n)"
    using fl_of_nat [OF n(2)] by simp
  then have "c \<le> int n" unfolding c_def by (rule ceiling_le)
  then have "nat (max 0 (c - 1)) < n" using n(1) by linarith
  then show ?thesis by (simp only: double_rank_index_def c_def)
qed

lemma double_rank_99_less:
  assumes n: "0 < n"
  shows "double_rank_index 99 n < n"
proof -
  define c where "c = \<lceil>fl (fl (99 / 100) * real n)\<rceil>"
  let ?c99 = "8917127262193582 / 2 ^ 53 :: real"
  have "(2 :: real) powi (- 1022) \<le> 2 powi (- 1)" by (rule power_int_increasing) simp_all
  also have "\<dots> = 1 / 2" by (simp add: power_int_minus)
  also have "\<dots> \<le> ?c99 * 1" by simp
  also have "\<dots> \<le> ?c99 * real n" using n by (intro mult_left_mono) simp_all
  finally have "fl (?c99 * real n) \<le> ?c99 * real n * (1 + 1 / 2 ^ 53)"
    by (rule fl_rel_upper)
  also have "\<dots> = (?c99 * (1 + 1 / 2 ^ 53)) * real n" by (simp only: mult.assoc mult.commute mult.left_commute)
  also have "\<dots> \<le> 1 * real n" by (intro mult_right_mono) simp_all
  finally have "fl (fl (99 / 100) * real n) \<le> of_int (int n)" by (simp add: fl_99)
  then have "c \<le> int n" unfolding c_def by (rule ceiling_le)
  then have "nat (max 0 (c - 1)) < n" using n by linarith
  then show ?thesis by (simp only: double_rank_index_def c_def)
qed

lemma percentile_double_rank:
  assumes "double_rank_index p (length xs) < length xs"
  shows "percentile xs p = Num (xs ! double_rank_index p (length xs))"
proof -
  define c where "c = \<lceil>fl (fl (p / 100) * real (length xs))\<rceil>"
  have i: "double_rank_index p (length xs) = nat (max 0 (c - 1))"
    by (simp only: double_rank_index_def c_def)
  have n: "length xs \<noteq> 0" using assms by linarith
  have "percentile xs p = nth_js xs (max 0 (c - 1))"
    using n by (simp only: percentile_def c_def Let_def if_False)
  also have "\<dots> = Num (xs ! nat (max 0 (c - 1)))"
  proof -
    have "0 \<le> max 0 (c - 1)" "max 0 (c - 1) < int (length xs)"
      using assms unfolding i by linarith+
    then show ?thesis by (simp only: nth_js_def simp_thms if_True)
  qed
  finally show ?thesis by (simp only: i)
qed

text \<open>
  For the three percentiles that \<open>computeStats\<close> asks for, the index computed in doubles is the
  exact nearest-rank index, for every array length.
\<close>

lemma double_rank_exact:
  assumes n: "0 < n" "n < 2 ^ 32"
  shows "double_rank_index 50 n = nearest_rank_index 50 n"
    and "double_rank_index 95 n = nearest_rank_index 95 n"
    and "double_rank_index 99 n = nearest_rank_index 99 n"
proof -
  have idx: "nat (max 0 (\<lceil>fl (c * real n)\<rceil> - 1)) = nat (min (int n - 1) (max 0 (\<lceil>r * real n\<rceil> - 1)))"
    if "\<lceil>fl (c * real n)\<rceil> = \<lceil>r * real n\<rceil>" "\<lceil>r * real n\<rceil> \<le> int n" for c r
  proof -
    define k where "k = \<lceil>r * real n\<rceil>"
    have "nat (max 0 (k - 1)) = nat (min (int n - 1) (max 0 (k - 1)))"
      using that(2) unfolding k_def by linarith
    then show ?thesis unfolding that(1) k_def .
  qed
  have e50: "\<lceil>fl (1 / 2 * real n)\<rceil> = \<lceil>real 1 / real 2 * real n\<rceil>"
    by (rule rank_agree [where j = 1]) (use n in simp_all)
  have e95: "\<lceil>fl (8556839292003942 / 2 ^ 53 * real n)\<rceil> = \<lceil>real 19 / real 20 * real n\<rceil>"
    by (rule rank_agree [where j = 5]) (use n in simp_all)
  have e99: "\<lceil>fl (8917127262193582 / 2 ^ 53 * real n)\<rceil> = \<lceil>real 99 / real 100 * real n\<rceil>"
    by (rule rank_agree [where j = 7]) (use n in simp_all)
  have r: "(50 :: real) / 100 = real 1 / real 2" "(95 :: real) / 100 = real 19 / real 20"
    "(99 :: real) / 100 = real 99 / real 100"
    by simp_all
  have b: "\<lceil>(50 :: real) / 100 * real n\<rceil> \<le> int n" "\<lceil>(95 :: real) / 100 * real n\<rceil> \<le> int n"
    "\<lceil>(99 :: real) / 100 * real n\<rceil> \<le> int n"
    using rank_bounds(2) [OF n(1), of 50] rank_bounds(2) [OF n(1), of 95]
      rank_bounds(2) [OF n(1), of 99] by simp_all
  show "double_rank_index 50 n = nearest_rank_index 50 n"
    unfolding double_rank_index_def nearest_rank_index_def fl_half
    by (rule idx) (use e50 b(1) in \<open>simp_all only: r\<close>)
  show "double_rank_index 95 n = nearest_rank_index 95 n"
    unfolding double_rank_index_def nearest_rank_index_def fl_95
    by (rule idx) (use e95 b(2) in \<open>simp_all only: r\<close>)
  show "double_rank_index 99 n = nearest_rank_index 99 n"
    unfolding double_rank_index_def nearest_rank_index_def fl_99
    by (rule idx) (use e99 b(3) in \<open>simp_all only: r\<close>)
qed

text \<open>At \<open>P = 7\<close> and a hundred samples the product is rounded up past 7.\<close>

lemma double_rank_7_of_100: "double_rank_index 7 100 = 7"
proof -
  have "real (100 :: nat) = 100" by simp
  then have "fl (fl (7 / 100) * real (100 :: nat)) = 7881299347898369 / 1125899906842624"
    by (simp only: fl_7_percent fl_7_percent_100)
  then show ?thesis unfolding double_rank_index_def by (simp only:) simp
qed

lemma js_number_small:
  "js_number 0 = Num 0" "js_number 1 = Num 1" "js_number 2 = Num 2" "js_number 3 = Num 3"
  by (simp_all add: js_number_def fl_small_nat)

lemma computeStats_fields:
  "mean (computeStats ts) = js_div (foldl (\<lambda>s v. js_add s v) (Num 0) ts) (real (length ts))"
  "p50 (computeStats ts) = percentile (sort ts) 50"
  "p95 (computeStats ts) = percentile (sort ts) 95"
  "p99 (computeStats ts) = percentile (sort ts) 99"
  "stat_min (computeStats ts) = nullish (nth_js (sort ts) 0) (Num 0)"
  "stat_max (computeStats ts) = nullish (nth_js (sort ts) (int (length (sort ts)) - 1)) (Num 0)"
  by (simp_all add: computeStats_def Let_def)

lemma computeStats_extremes:
  assumes "ts \<noteq> []"
  shows "stat_min (computeStats ts) = Num (sort ts ! 0)"
    and "stat_max (computeStats ts) = Num (sort ts ! (length ts - 1))"
proof -
  have len: "0 < length ts" using assms by simp
  show "stat_min (computeStats ts) = Num (sort ts ! 0)"
    using len by (simp add: computeStats_fields nth_js_def nullish_def)
  have "nat (int (length ts) - 1) = length ts - 1" by linarith
  then show "stat_max (computeStats ts) = Num (sort ts ! (length ts - 1))"
    using len by (simp add: computeStats_fields nth_js_def nullish_def)
qed

lemma percentile_used:
  assumes "xs \<noteq> []" and "length xs < 2 ^ 32"
  shows "percentile xs 50 = Num (xs ! nearest_rank_index 50 (length xs))"
    and "percentile xs 95 = Num (xs ! nearest_rank_index 95 (length xs))"
    and "percentile xs 99 = Num (xs ! nearest_rank_index 99 (length xs))"
proof -
  have n: "0 < length xs" using assms(1) by simp
  note e = double_rank_exact [OF n assms(2)]
  have l: "double_rank_index 50 (length xs) < length xs"
    "double_rank_index 95 (length xs) < length xs"
    "double_rank_index 99 (length xs) < length xs"
    unfolding e by (rule rank_index_less [OF n])+
  show "percentile xs 50 = Num (xs ! nearest_rank_index 50 (length xs))"
    using percentile_double_rank [OF l(1)] by (simp only: e)
  show "percentile xs 95 = Num (xs ! nearest_rank_index 95 (length xs))"
    using percentile_double_rank [OF l(2)] by (simp only: e)
  show "percentile xs 99 = Num (xs ! nearest_rank_index 99 (length xs))"
    using percentile_double_rank [OF l(3)] by (simp only: e)
qed

lemma sort_nonempty: "ts \<noteq> [] \<Longrightarrow> sort ts \<noteq> []"
  by (metis length_sort length_0_conv)

text \<open>
  C2 (as amended). For a non-empty array of durations (fewer than \<open>2^32\<close> elements) and a
  percentile \<open>P\<close> with \<open>0 < P \<le> 100\<close>, \<open>percentile\<close> applied to the ascending-sorted
  sequence returns its element at the index \<open>ceil(P/100 * n) - 1\<close> evaluated in double
  arithmetic, which lies in \<open>[0, n-1]\<close>. For \<open>P = 50, 95, 99\<close>, the percentiles that
  \<open>computeStats\<close> computes, this is the exact index \<open>ceil(P/100 * n) - 1\<close>. For
  \<open>[10, 20, 30, 40]\<close> this gives \<open>p50 = 20\<close>, \<open>p95 = 40\<close>, \<open>p99 = 40\<close>, and for a single
  sample \<open>x\<close> all three are \<open>x\<close>.
\<close>

theorem percentile_nearest_rank_law:
  assumes "ts \<noteq> []" and "length ts < 2 ^ 32" and "0 < p" and "p \<le> 100"
  shows "percentile (sort ts) p = Num (sort ts ! double_rank_index p (length ts))
       \<and> double_rank_index p (length ts) < length ts
       \<and> (p = 50 \<or> p = 95 \<or> p = 99 \<longrightarrow>
            double_rank_index p (length ts) = nearest_rank_index p (length ts))
       \<and> p50 (computeStats ts) = Num (sort ts ! nearest_rank_index 50 (length ts))
       \<and> p95 (computeStats ts) = Num (sort ts ! nearest_rank_index 95 (length ts))
       \<and> p99 (computeStats ts) = Num (sort ts ! nearest_rank_index 99 (length ts))
       \<and> p50 (computeStats [10, 20, 30, 40]) = Num 20
       \<and> p95 (computeStats [10, 20, 30, 40]) = Num 40
       \<and> p99 (computeStats [10, 20, 30, 40]) = Num 40
       \<and> p50 (computeStats [x]) = Num x
       \<and> p95 (computeStats [x]) = Num x
       \<and> p99 (computeStats [x]) = Num x"
proof -
  have n: "0 < length ts" using assms(1) by simp
  have n53: "length ts < 2 ^ 53" using assms(2) by simp
  have p0: "0 \<le> p" using assms(3) by simp
  have l: "double_rank_index p (length ts) < length ts"
    using n n53 p0 assms(4) by (rule double_rank_less)
  have a: "percentile (sort ts) p = Num (sort ts ! double_rank_index p (length ts))"
    using percentile_double_rank [of p "sort ts"] l by simp
  have b: "p = 50 \<or> p = 95 \<or> p = 99 \<longrightarrow>
      double_rank_index p (length ts) = nearest_rank_index p (length ts)"
    using double_rank_exact [OF n assms(2)] by auto
  have "length (sort ts) < 2 ^ 32" using assms(2) by simp
  note u = percentile_used [OF sort_nonempty [OF assms(1)] this]
  have r4: "nearest_rank_index 50 (Suc (Suc (Suc (Suc 0)))) = 1"
    "nearest_rank_index 95 (Suc (Suc (Suc (Suc 0)))) = 3"
    "nearest_rank_index 99 (Suc (Suc (Suc (Suc 0)))) = 3"
    by (simp_all add: nearest_rank_index_def)
  have r1: "nearest_rank_index q (Suc 0) = 0" for q
    using rank_index_less [of "Suc 0" q] by simp
  have four: "p50 (computeStats [10, 20, 30, 40]) = Num 20"
    "p95 (computeStats [10, 20, 30, 40]) = Num 40"
    "p99 (computeStats [10, 20, 30, 40]) = Num 40"
    by (simp_all add: computeStats_fields percentile_used r4)
  have one: "p50 (computeStats [x]) = Num x" "p95 (computeStats [x]) = Num x"
    "p99 (computeStats [x]) = Num x"
    by (simp_all add: computeStats_fields percentile_used r1)
  show ?thesis
    using a l b u four one by (simp add: computeStats_fields)
qed

theorem percentile_nearest_rank_law_witness:
  "[30, 10, 40, 20 :: real] \<noteq> [] \<and> length [30, 10, 40, 20 :: real] < 2 ^ 32
   \<and> (0 :: real) < 95 \<and> (95 :: real) \<le> 100
   \<and> double_rank_index 95 (length [30, 10, 40, 20 :: real]) = 3
   \<and> percentile (sort [30, 10, 40, 20]) 95 = Num 40
   \<and> p50 (computeStats [30, 10, 40, 20]) = Num 20"
proof -
  have r4: "nearest_rank_index 50 (Suc (Suc (Suc (Suc 0)))) = 1"
    "nearest_rank_index 95 (Suc (Suc (Suc (Suc 0)))) = 3"
    by (simp_all add: nearest_rank_index_def)
  show ?thesis
    using percentile_nearest_rank_law [of "[30, 10, 40, 20]" 95 0] by (simp add: r4)
qed

text \<open>
  C2 as stated fails outside the percentiles the code uses: for \<open>P = 7\<close> and the hundred
  samples \<open>1, 2, \<dots>, 100\<close> the exact index \<open>ceil(0.07 * 100) - 1\<close> is 6, with sample 7, but
  \<open>7 / 100 * 100\<close> is a double above 7 and \<open>percentile\<close> returns the sample at index 7.
\<close>

theorem percentile_rank_7_of_100:
  "sorted (map real [1..<101])
   \<and> map real [1..<101] ! nearest_rank_index 7 (length (map real [1..<101])) = 7
   \<and> percentile (map real [1..<101]) 7 = Num 8"
proof -
  have s: "sorted (map real [1..<101])"
    by (simp add: sorted_map strict_sorted_imp_sorted)
  have i: "nearest_rank_index 7 100 = 6" by (simp add: nearest_rank_index_def)
  have d: "double_rank_index 7 (length (map real [1..<101])) = 7"
    using double_rank_7_of_100 by simp
  have "percentile (map real [1..<101]) 7 = Num (map real [1..<101] ! 7)"
    using percentile_double_rank [of 7 "map real [1..<101]"] unfolding d by simp
  then show ?thesis using s i by simp
qed

text \<open>
  C3. For the empty timing sequence \<open>computeStats\<close> raises nothing, and \<open>p50\<close>, \<open>p95\<close>,
  \<open>p99\<close>, \<open>min\<close> and \<open>max\<close> are zero; the mean is \<^verbatim>\<open>0 / 0\<close>, which is not a number.
\<close>

theorem computeStats_empty:
  "computeStats [] =
     \<lparr> mean = NaN, p50 = Num 0, p95 = Num 0, p99 = Num 0, stat_min = Num 0, stat_max = Num 0 \<rparr>
   \<and> mean (computeStats []) \<noteq> Num 0"
  by (simp add: computeStats_def percentile_def nth_js_def nullish_def)

text \<open>
  C10. For a non-empty sequence of durations the statistics are ordered,
  \<open>min \<le> p50 \<le> p95 \<le> p99 \<le> max\<close>, and on a fixed ascending array (of fewer than
  \<open>2^32\<close> elements, as every array has) the percentile function is monotone in \<open>P\<close> over
  \<open>(0, 100]\<close>.
\<close>

theorem stats_ordered:
  assumes "ts \<noteq> []" and "sorted xs" and "xs \<noteq> []" and "length xs < 2 ^ 32"
    and "0 < p" and "p \<le> q" and "q \<le> 100"
  shows "js_le (stat_min (computeStats ts)) (p50 (computeStats ts))
       \<and> js_le (p50 (computeStats ts)) (p95 (computeStats ts))
       \<and> js_le (p95 (computeStats ts)) (p99 (computeStats ts))
       \<and> js_le (p99 (computeStats ts)) (stat_max (computeStats ts))
       \<and> js_le (percentile xs p) (percentile xs q)"
proof -
  let ?s = "sort ts" and ?n = "length ts"
  have n: "0 < ?n" using assms(1) by simp
  have srt: "sorted ?s" by simp
  have mono: "?s ! i \<le> ?s ! j" if "i \<le> j" "j < ?n" for i j
    using sorted_nth_mono [OF srt that(1)] that(2) by simp
  have l99: "double_rank_index 99 ?n < ?n" using n by (rule double_rank_99_less)
  have m1: "double_rank_index 50 ?n \<le> double_rank_index 95 ?n"
    and m2: "double_rank_index 95 ?n \<le> double_rank_index 99 ?n"
    by (rule double_rank_mono; simp)+
  have l95: "double_rank_index 95 ?n < ?n" using m2 l99 by simp
  have l50: "double_rank_index 50 ?n < ?n" using m1 l95 by simp
  have v: "p50 (computeStats ts) = Num (?s ! double_rank_index 50 ?n)"
    "p95 (computeStats ts) = Num (?s ! double_rank_index 95 ?n)"
    "p99 (computeStats ts) = Num (?s ! double_rank_index 99 ?n)"
    using percentile_double_rank [of 50 ?s] percentile_double_rank [of 95 ?s]
      percentile_double_rank [of 99 ?s] l50 l95 l99
    by (simp_all add: computeStats_fields)
  have i1: "?s ! 0 \<le> ?s ! double_rank_index 50 ?n"
    by (rule mono) (simp_all add: l50)
  have i2: "?s ! double_rank_index 50 ?n \<le> ?s ! double_rank_index 95 ?n"
    using m1 l95 by (rule mono)
  have i3: "?s ! double_rank_index 95 ?n \<le> ?s ! double_rank_index 99 ?n"
    using m2 l99 by (rule mono)
  have "double_rank_index 99 ?n \<le> ?n - 1" using l99 by linarith
  then have i4: "?s ! double_rank_index 99 ?n \<le> ?s ! (?n - 1)"
    by (rule mono) (use n in simp)
  have m: "0 < length xs" "length xs < 2 ^ 53" using assms(3,4) by simp_all
  have pq: "0 \<le> p" "0 \<le> q" "p \<le> 100" using assms(5,6,7) by linarith+
  have lq: "double_rank_index q (length xs) < length xs"
    using m pq(2) assms(7) by (rule double_rank_less)
  have lp: "double_rank_index p (length xs) < length xs"
    using m pq(1) pq(3) by (rule double_rank_less)
  have "xs ! double_rank_index p (length xs) \<le> xs ! double_rank_index q (length xs)"
    using sorted_nth_mono [OF assms(2) double_rank_mono [OF pq(1) assms(6)] lq] .
  then have i5: "js_le (percentile xs p) (percentile xs q)"
    by (simp add: percentile_double_rank [OF lp] percentile_double_rank [OF lq])
  show ?thesis
    using i1 i2 i3 i4 i5 by (simp add: v computeStats_extremes [OF assms(1)])
qed

theorem stats_ordered_witness:
  "[30, 10, 40, 20 :: real] \<noteq> [] \<and> sorted [1, 2, 3 :: real] \<and> length [1, 2, 3 :: real] < 2 ^ 32
   \<and> (0 :: real) < 50 \<and> (50 :: real) \<le> 95
   \<and> js_le (stat_min (computeStats [30, 10, 40, 20])) (p50 (computeStats [30, 10, 40, 20]))
   \<and> js_le (p99 (computeStats [30, 10, 40, 20])) (stat_max (computeStats [30, 10, 40, 20]))
   \<and> js_le (percentile [1, 2, 3] 50) (percentile [1, 2, 3] 95)"
  using stats_ordered [of "[30, 10, 40, 20]" "[1, 2, 3]" 50 95] by simp

section \<open>Properties of a case run\<close>

lemma warmup_loop_invocations:
  "warmup_loop runp a n i ctx w =
     (case invocations now runp a (nat (n - i)) ctx w of (outs, ctx', w') \<Rightarrow> (ctx', w'))"
proof (induction runp a n i ctx w rule: warmup_loop.induct)
  case (1 runp a n i ctx w)
  show ?case
  proof (cases "i < n")
    case True
    then have k: "nat (n - i) = Suc (nat (n - (i + 1)))" by linarith
    obtain r ctx' w' where inv: "invoke_run runp a ctx w = (r, ctx', w')"
      by (cases "invoke_run runp a ctx w") auto
    have "warmup_loop runp a n i ctx w = warmup_loop runp a n (i + 1) ctx' w'"
      using True inv by (subst warmup_loop.simps) simp
    also have "\<dots> = (case invocations now runp a (nat (n - (i + 1))) ctx' w' of
        (outs, c, v) \<Rightarrow> (c, v))"
      using "1.IH" [OF True inv [symmetric] refl] .
    finally show ?thesis
      unfolding k using inv by (simp split: prod.splits)
  next
    case False
    then show ?thesis by (subst warmup_loop.simps) simp
  qed
qed

lemma measure_loop_invocations:
  "measure_loop now runp a n i timings errs ctx w =
     (case invocations now runp a (nat (n - i)) ctx w of
        (outs, ctx', w') \<Rightarrow>
          (timings @ map snd outs, errs + int (length (rejected outs)), ctx', w'))"
proof (induction now runp a n i timings errs ctx w rule: measure_loop.induct)
  case (1 now runp a n i timings errs ctx w)
  show ?case
  proof (cases "i < n")
    case True
    then have k: "nat (n - i) = Suc (nat (n - (i + 1)))" by linarith
    obtain r ctx' w' where inv: "invoke_run runp a ctx w = (r, ctx', w')"
      by (cases "invoke_run runp a ctx w") auto
    define errs' where "errs' = (case r of Some _ \<Rightarrow> errs + 1 | None \<Rightarrow> errs)"
    define timings' where "timings' = timings @ [fl (now w' - now w)]"
    have "measure_loop now runp a n i timings errs ctx w
        = measure_loop now runp a n (i + 1) timings' errs' ctx' w'"
      using True inv by (subst measure_loop.simps) (simp add: errs'_def timings'_def)
    also have "\<dots> = (case invocations now runp a (nat (n - (i + 1))) ctx' w' of
        (outs, c, v) \<Rightarrow> (timings' @ map snd outs, errs' + int (length (rejected outs)), c, v))"
      using "1.IH" [OF True refl inv [symmetric] refl errs'_def timings'_def] .
    finally show ?thesis
      unfolding k using inv
      by (cases r) (simp_all add: errs'_def timings'_def rejected_def split: prod.splits)
  next
    case False
    then show ?thesis by (subst measure_loop.simps) (simp add: rejected_def)
  qed
qed

lemma length_invocations:
  "length (fst (invocations now runp a k ctx w)) = k"
proof (induction k arbitrary: ctx w)
  case 0
  show ?case by simp
next
  case (Suc k)
  obtain r c v where inv: "invoke_run runp a ctx w = (r, c, v)"
    by (cases "invoke_run runp a ctx w") auto
  obtain rest c2 v2 where rec: "invocations now runp a k c v = (rest, c2, v2)"
    by (cases "invocations now runp a k c v") auto
  have "length rest = k" using Suc.IH [of c v] rec by simp
  then show ?case using inv rec by simp
qed

lemma make_result_sel [simp]:
  "adapter (make_result an cn wu it ts es) = an"
  "case_name (make_result an cn wu it ts es) = cn"
  "warmup (make_result an cn wu it ts es) = wu"
  "iterations (make_result an cn wu it ts es) = it"
  "timings_ms (make_result an cn wu it ts es) = ts"
  "errors (make_result an cn wu it ts es) = es"
  "mean (make_result an cn wu it ts es) = mean (computeStats ts)"
  "p50 (make_result an cn wu it ts es) = p50 (computeStats ts)"
  "p95 (make_result an cn wu it ts es) = p95 (computeStats ts)"
  "p99 (make_result an cn wu it ts es) = p99 (computeStats ts)"
  "stat_min (make_result an cn wu it ts es) = stat_min (computeStats ts)"
  "stat_max (make_result an cn wu it ts es) = stat_max (computeStats ts)"
  by (simp_all add: make_result_def Stats.defs RunResult.defs)

lemma runCase_unknown:
  assumes "\<not> truthy (caseMap cases caseName)"
  shows "runCase now cases a caseName adapterName wu it w
       = (Inl (Error (''Unknown case: '' @ caseName)), w)"
  using assms by (simp add: runCase_def)

lemma runCase_setup_fails:
  assumes "truthy (caseMap cases caseName)"
    and "invoke_optional (bench_setup (caseMap cases caseName)) a Map.empty w = (Some e, ctx1, w1)"
  shows "runCase now cases a caseName adapterName wu it w = (Inl e, w1)"
  using assms by (simp add: runCase_def)

lemma runCase_phases:
  assumes "truthy (caseMap cases caseName)"
    and "invoke_optional (bench_setup (caseMap cases caseName)) a Map.empty w = (None, ctx1, w1)"
    and "invocations now (bench_run (caseMap cases caseName)) a (nat wu) ctx1 w1 = (wouts, ctx2, w2)"
    and "invocations now (bench_run (caseMap cases caseName)) a (nat it) ctx2 w2 = (outs, ctx3, w3)"
    and "invoke_optional (bench_teardown (caseMap cases caseName)) a ctx3 w3 = (td, ctx4, w4)"
  shows "runCase now cases a caseName adapterName wu it w =
     ((case td of
         Some e \<Rightarrow> Inl e
       | None \<Rightarrow> Inr (make_result adapterName caseName wu it (map snd outs)
                       (int (length (rejected outs))))), w4)"
proof -
  have wl: "warmup_loop (bench_run (caseMap cases caseName)) a wu 0 ctx1 w1 = (ctx2, w2)"
    using assms(3) by (simp add: warmup_loop_invocations [where now = now])
  have ml: "measure_loop now (bench_run (caseMap cases caseName)) a it 0 [] 0 ctx2 w2
      = (map snd outs, int (length (rejected outs)), ctx3, w3)"
    using assms(4) by (simp add: measure_loop_invocations)
  show ?thesis
    using assms(1,2,5) by (cases td) (simp_all add: runCase_def wl ml)
qed

lemmas demo_defs = demo_cases_def demo_now_def demo_ok_def demo_raise_def demo_cold_def
  caseMap_def object_prototype_keys_def fl_small_nat

lemma length_rejected: "length (rejected outs) \<le> length outs"
  by (simp add: rejected_def)

lemma rejected_all: "(\<forall>out \<in> set outs. fst out \<noteq> None) \<Longrightarrow> rejected outs = outs"
  by (simp add: rejected_def)

text \<open>
  C1. Every \<open>RunResult\<close> that \<open>runCase\<close> produces for an iteration count \<open>n \<ge> 0\<close> has
  exactly \<open>n\<close> timings, whatever the measured operation does on each call, and its error
  count lies between zero and the iteration count.
\<close>

theorem runCase_timings_length:
  assumes "0 \<le> it"
    and "runCase now cases a caseName adapterName wu it w = (Inr r, w')"
  shows "int (length (timings_ms r)) = iterations r \<and> iterations r = it
       \<and> 0 \<le> errors r \<and> errors r \<le> iterations r"
proof -
  let ?bench = "caseMap cases caseName"
  have t: "truthy ?bench"
    using assms(2) runCase_unknown [of cases caseName now a adapterName wu it w] by fastforce
  obtain s ctx1 w1 where st: "invoke_optional (bench_setup ?bench) a Map.empty w = (s, ctx1, w1)"
    using prod_cases3 by blast
  have s: "s = None"
  proof (cases s)
    case (Some e)
    then show ?thesis
      using assms(2) runCase_setup_fails [OF t, of a w e ctx1 w1 now adapterName wu it] st by simp
  qed simp
  obtain wouts ctx2 w2 where wo: "invocations now (bench_run ?bench) a (nat wu) ctx1 w1 = (wouts, ctx2, w2)"
    using prod_cases3 by blast
  obtain outs ctx3 w3 where mo: "invocations now (bench_run ?bench) a (nat it) ctx2 w2 = (outs, ctx3, w3)"
    using prod_cases3 by blast
  obtain td ctx4 w4 where te: "invoke_optional (bench_teardown ?bench) a ctx3 w3 = (td, ctx4, w4)"
    using prod_cases3 by blast
  have r: "r = make_result adapterName caseName wu it (map snd outs) (int (length (rejected outs)))"
    using assms(2) runCase_phases [OF t st [unfolded s] wo mo te, of adapterName]
    by (cases td) simp_all
  have len: "length outs = nat it"
    using length_invocations [of now "bench_run ?bench" a "nat it" ctx2 w2] mo by simp
  show ?thesis
    using len assms(1) length_rejected [of outs] by (simp add: r)
qed


lemma demo_run_always_fails:
  "runCase demo_now demo_cases RawSqlAdapter ''always_fails'' ''raw'' 2 3 0
     = (Inr (make_result ''raw'' ''always_fails'' 2 3 [1, 1, 1] 3), 5)"
  by (simp add: runCase_def demo_defs warmup_loop.simps measure_loop.simps)

theorem runCase_timings_length_witness:
  "(0 :: int) \<le> 3
   \<and> runCase demo_now demo_cases RawSqlAdapter ''always_fails'' ''raw'' 2 3 0
       = (Inr (make_result ''raw'' ''always_fails'' 2 3 [1, 1, 1] 3), 5)
   \<and> length (timings_ms (make_result ''raw'' ''always_fails'' 2 3 [1, 1, 1] 3)) = 3
   \<and> errors (make_result ''raw'' ''always_fails'' 2 3 [1, 1, 1] 3) = 3"
proof -
  have h: "(0 :: int) \<le> 3" by simp
  show ?thesis
    using runCase_timings_length [OF h demo_run_always_fails] demo_run_always_fails by simp
qed

text \<open>
  C4. The measurement phase invokes the operation once per iteration; every invocation
  contributes its elapsed time to the timing sequence whether it resolved or rejected, and the
  error counter is the number of rejected invocations. The run goes on to the end and returns
  a \<open>RunResult\<close>; when every invocation rejects, \<open>errors\<close> equals \<open>iterations\<close> and the
  timing sequence is full. (The case is found, its setup and teardown do not fail.)
\<close>

theorem measured_failures_counted:
  assumes "truthy (caseMap cases caseName)"
    and "invoke_optional (bench_setup (caseMap cases caseName)) a Map.empty w = (None, ctx1, w1)"
    and "invocations now (bench_run (caseMap cases caseName)) a (nat wu) ctx1 w1 = (wouts, ctx2, w2)"
    and "invocations now (bench_run (caseMap cases caseName)) a (nat it) ctx2 w2 = (outs, ctx3, w3)"
    and "invoke_optional (bench_teardown (caseMap cases caseName)) a ctx3 w3 = (None, ctx4, w4)"
    and "0 \<le> it"
  shows "measure_loop now (bench_run (caseMap cases caseName)) a it 0 [] 0 ctx2 w2
           = (map snd outs, int (length (rejected outs)), ctx3, w3)
       \<and> int (length outs) = it
       \<and> (\<exists>r. runCase now cases a caseName adapterName wu it w = (Inr r, w4)
              \<and> iterations r = it
              \<and> timings_ms r = map snd outs
              \<and> errors r = int (length (rejected outs))
              \<and> ((\<forall>out \<in> set outs. fst out \<noteq> None) \<longrightarrow>
                   errors r = iterations r \<and> int (length (timings_ms r)) = iterations r))"
proof -
  have ml: "measure_loop now (bench_run (caseMap cases caseName)) a it 0 [] 0 ctx2 w2
      = (map snd outs, int (length (rejected outs)), ctx3, w3)"
    using assms(4) by (simp add: measure_loop_invocations)
  have len: "int (length outs) = it"
    using length_invocations [of now "bench_run (caseMap cases caseName)" a "nat it" ctx2 w2]
      assms(4,6) by simp
  have rc: "runCase now cases a caseName adapterName wu it w
      = (Inr (make_result adapterName caseName wu it (map snd outs)
               (int (length (rejected outs)))), w4)"
    using runCase_phases [OF assms(1-5), of adapterName] by simp
  show ?thesis
    unfolding rc using ml len by (auto simp: rejected_all)
qed

lemma demo_member_always_fails:
  "caseMap demo_cases ''always_fails''
     = Own \<lparr> name = ''always_fails'', description = ''raises on every call'',
             setup_op = None, run_op = demo_raise ''boom'', teardown_op = None \<rparr>"
  by (simp add: demo_cases_def caseMap_def)

theorem measured_failures_counted_witness:
  "truthy (caseMap demo_cases ''always_fails'') \<and> (0 :: int) \<le> 3
   \<and> invocations demo_now (bench_run (caseMap demo_cases ''always_fails'')) RawSqlAdapter (nat 3)
        Map.empty 2
       = ([(Some (Error ''boom''), 1), (Some (Error ''boom''), 1), (Some (Error ''boom''), 1)],
          Map.empty, 5)
   \<and> (\<exists>r. runCase demo_now demo_cases RawSqlAdapter ''always_fails'' ''raw'' 2 3 0 = (Inr r, 5)
          \<and> iterations r = 3 \<and> timings_ms r = [1, 1, 1] \<and> errors r = 3)"
proof -
  let ?b = "caseMap demo_cases ''always_fails''"
  let ?boom = "(Some (Error ''boom''), 1 :: real)"
  have h1: "truthy ?b" by (simp add: demo_member_always_fails)
  have h2: "invoke_optional (bench_setup ?b) RawSqlAdapter Map.empty (0 :: nat) = (None, Map.empty, 0)"
    by (simp add: demo_member_always_fails)
  have h3: "invocations demo_now (bench_run ?b) RawSqlAdapter (nat 2) Map.empty 0
      = ([?boom, ?boom], Map.empty, 2)"
    by (simp add: demo_member_always_fails demo_raise_def demo_now_def fl_small_nat eval_nat_numeral)
  have h4: "invocations demo_now (bench_run ?b) RawSqlAdapter (nat 3) Map.empty 2
      = ([?boom, ?boom, ?boom], Map.empty, 5)"
    by (simp add: demo_member_always_fails demo_raise_def demo_now_def fl_small_nat eval_nat_numeral)
  have h5: "invoke_optional (bench_teardown ?b) RawSqlAdapter Map.empty (5 :: nat) = (None, Map.empty, 5)"
    by (simp add: demo_member_always_fails)
  have h6: "(0 :: int) \<le> 3" by simp
  show ?thesis
    using measured_failures_counted [OF h1 h2 h3 h4 h5 h6, of "''raw''"] h1 h4
    by (auto simp: rejected_def)
qed


text \<open>
  C8. The warmup phase invokes the measured operation exactly \<open>warmupCount\<close> times in
  sequence and keeps nothing of these calls but the context and the world they leave: however
  the warmup invocations settle, \<open>runCase\<close> returns a result whose timings and error count
  come from the measured invocations alone.
\<close>

theorem warmup_failures_absorbed:
  assumes "truthy (caseMap cases caseName)"
    and "invoke_optional (bench_setup (caseMap cases caseName)) a Map.empty w = (None, ctx1, w1)"
    and "invocations now (bench_run (caseMap cases caseName)) a (nat wu) ctx1 w1 = (wouts, ctx2, w2)"
    and "invocations now (bench_run (caseMap cases caseName)) a (nat it) ctx2 w2 = (outs, ctx3, w3)"
    and "invoke_optional (bench_teardown (caseMap cases caseName)) a ctx3 w3 = (None, ctx4, w4)"
  shows "warmup_loop (bench_run (caseMap cases caseName)) a wu 0 ctx1 w1 = (ctx2, w2)
       \<and> length wouts = nat wu
       \<and> (\<exists>r. runCase now cases a caseName adapterName wu it w = (Inr r, w4)
              \<and> timings_ms r = map snd outs
              \<and> length (timings_ms r) = nat it
              \<and> errors r = int (length (rejected outs)))"
proof -
  have wl: "warmup_loop (bench_run (caseMap cases caseName)) a wu 0 ctx1 w1 = (ctx2, w2)"
    using assms(3) by (simp add: warmup_loop_invocations [where now = now])
  have lw: "length wouts = nat wu"
    using length_invocations [of now "bench_run (caseMap cases caseName)" a "nat wu" ctx1 w1]
      assms(3) by simp
  have lo: "length outs = nat it"
    using length_invocations [of now "bench_run (caseMap cases caseName)" a "nat it" ctx2 w2]
      assms(4) by simp
  have rc: "runCase now cases a caseName adapterName wu it w
      = (Inr (make_result adapterName caseName wu it (map snd outs)
               (int (length (rejected outs)))), w4)"
    using runCase_phases [OF assms(1-5), of adapterName] by simp
  show ?thesis
    unfolding rc using wl lw lo by simp
qed

lemma demo_member_cold_start:
  "caseMap demo_cases ''cold_start''
     = Own \<lparr> name = ''cold_start'', description = ''raises on the first two calls'',
             setup_op = None, run_op = demo_cold, teardown_op = None \<rparr>"
  by (simp add: demo_cases_def caseMap_def)

theorem warmup_failures_absorbed_witness:
  "truthy (caseMap demo_cases ''cold_start'')
   \<and> invocations demo_now (bench_run (caseMap demo_cases ''cold_start'')) RawSqlAdapter (nat 2)
        Map.empty 0
       = ([(Some (Error ''cold''), 1), (Some (Error ''cold''), 1)], Map.empty, 2)
   \<and> warmup_loop (bench_run (caseMap demo_cases ''cold_start'')) RawSqlAdapter 2 0 Map.empty 0
       = (Map.empty, 2)
   \<and> (\<exists>r. runCase demo_now demo_cases RawSqlAdapter ''cold_start'' ''raw'' 2 3 0 = (Inr r, 5)
          \<and> timings_ms r = [1, 1, 1] \<and> errors r = 0)"
proof -
  let ?b = "caseMap demo_cases ''cold_start''"
  let ?cold = "(Some (Error ''cold''), 1 :: real)"
  let ?warm = "(None :: error option, 1 :: real)"
  have h1: "truthy ?b" by (simp add: demo_member_cold_start)
  have h2: "invoke_optional (bench_setup ?b) RawSqlAdapter Map.empty (0 :: nat) = (None, Map.empty, 0)"
    by (simp add: demo_member_cold_start)
  have h3: "invocations demo_now (bench_run ?b) RawSqlAdapter (nat 2) Map.empty 0
      = ([?cold, ?cold], Map.empty, 2)"
    by (simp add: demo_member_cold_start demo_cold_def demo_now_def fl_small_nat eval_nat_numeral)
  have h4: "invocations demo_now (bench_run ?b) RawSqlAdapter (nat 3) Map.empty 2
      = ([?warm, ?warm, ?warm], Map.empty, 5)"
    by (simp add: demo_member_cold_start demo_cold_def demo_now_def fl_small_nat eval_nat_numeral)
  have h5: "invoke_optional (bench_teardown ?b) RawSqlAdapter Map.empty (5 :: nat) = (None, Map.empty, 5)"
    by (simp add: demo_member_cold_start)
  show ?thesis
    using warmup_failures_absorbed [OF h1 h2 h3 h4 h5, of "''raw''"] h1 h3
    by (auto simp: rejected_def)
qed

text \<open>
  C6 (as amended). If the teardown of a case fails after the measurement phase, the failure is
  surfaced to the caller: \<open>runCase\<close> rejects with the teardown's error and returns no
  \<open>RunResult\<close>, so the timings, statistics and error count of that case are not delivered.
\<close>

theorem teardown_failure_propagates:
  assumes "truthy (caseMap cases caseName)"
    and "invoke_optional (bench_setup (caseMap cases caseName)) a Map.empty w = (None, ctx1, w1)"
    and "invocations now (bench_run (caseMap cases caseName)) a (nat wu) ctx1 w1 = (wouts, ctx2, w2)"
    and "invocations now (bench_run (caseMap cases caseName)) a (nat it) ctx2 w2 = (outs, ctx3, w3)"
    and "invoke_optional (bench_teardown (caseMap cases caseName)) a ctx3 w3 = (Some e, ctx4, w4)"
  shows "runCase now cases a caseName adapterName wu it w = (Inl e, w4)"
  using runCase_phases [OF assms, of adapterName] by simp

lemma demo_member_bad_teardown:
  "caseMap demo_cases ''bad_teardown''
     = Own \<lparr> name = ''bad_teardown'', description = ''teardown raises'',
             setup_op = None, run_op = demo_ok,
             teardown_op = Some (demo_raise ''teardown failed'') \<rparr>"
  by (simp add: demo_cases_def caseMap_def)

theorem teardown_failure_propagates_witness:
  "truthy (caseMap demo_cases ''bad_teardown'')
   \<and> invoke_optional (bench_teardown (caseMap demo_cases ''bad_teardown'')) RawSqlAdapter Map.empty 5
       = (Some (Error ''teardown failed''), Map.empty, 6)
   \<and> runCase demo_now demo_cases RawSqlAdapter ''bad_teardown'' ''raw'' 2 3 0
       = (Inl (Error ''teardown failed''), 6)"
proof -
  let ?b = "caseMap demo_cases ''bad_teardown''"
  let ?ok = "(None :: error option, 1 :: real)"
  have h1: "truthy ?b" by (simp add: demo_member_bad_teardown)
  have h2: "invoke_optional (bench_setup ?b) RawSqlAdapter Map.empty (0 :: nat) = (None, Map.empty, 0)"
    by (simp add: demo_member_bad_teardown)
  have h3: "invocations demo_now (bench_run ?b) RawSqlAdapter (nat 2) Map.empty 0
      = ([?ok, ?ok], Map.empty, 2)"
    by (simp add: demo_member_bad_teardown demo_ok_def demo_now_def fl_small_nat eval_nat_numeral)
  have h4: "invocations demo_now (bench_run ?b) RawSqlAdapter (nat 3) Map.empty 2
      = ([?ok, ?ok, ?ok], Map.empty, 5)"
    by (simp add: demo_member_bad_teardown demo_ok_def demo_now_def fl_small_nat eval_nat_numeral)
  have h5: "invoke_optional (bench_teardown ?b) RawSqlAdapter Map.empty (5 :: nat)
      = (Some (Error ''teardown failed''), Map.empty, 6)"
    by (simp add: demo_member_bad_teardown demo_raise_def)
  show ?thesis
    using teardown_failure_propagates [OF h1 h2 h3 h4 h5, of "''raw''"] h1 h5 by simp
qed

text \<open>
  C6 as stated fails: in the example registry the case whose teardown raises yields the
  teardown's error and not the result that the three measured calls would have given.
\<close>

theorem teardown_failure_discards_result:
  "fst (runCase demo_now demo_cases RawSqlAdapter ''bad_teardown'' ''raw'' 2 3 0)
     = Inl (Error ''teardown failed'')
   \<and> fst (runCase demo_now demo_cases RawSqlAdapter ''bad_teardown'' ''raw'' 2 3 0)
     \<noteq> Inr (make_result ''raw'' ''bad_teardown'' 2 3 [1, 1, 1] 0)"
  by (simp add: runCase_def demo_defs warmup_loop.simps measure_loop.simps)

section \<open>Properties of the command-line run\<close>

lemma discipline_append:
  "discipline cur (xs @ ys) = (case discipline cur xs of None \<Rightarrow> None | Some c \<Rightarrow> discipline c ys)"
  by (induction cur xs rule: discipline.induct) auto

lemma constructed_append: "constructed (xs @ ys) = constructed xs @ constructed ys"
  by (induction xs rule: constructed.induct) auto

lemma released_append: "released (xs @ ys) = released xs @ released ys"
  by (induction xs rule: released.induct) auto

lemma keeps_instance_refl: "keeps_instance a l l"
  by (simp add: keeps_instance_def)

lemma keeps_instance_trans:
  "keeps_instance a l l' \<Longrightarrow> keeps_instance a l' l'' \<Longrightarrow> keeps_instance a l l''"
  by (simp add: keeps_instance_def)

lemma keeps_instance_invoked: "keeps_instance a l (l @ [Invoked a nm])"
  by (simp add: keeps_instance_def discipline_append constructed_append released_append)

lemma observe_op_keeps:
  assumes "observe_op nm g a ctx wl = (r, ctx', wl')"
  shows "keeps_instance a (snd wl) (snd wl')"
proof -
  obtain r0 c0 w0 where g: "g a ctx (fst wl) = (r0, c0, w0)"
    using prod_cases3 by blast
  have "snd wl' = snd wl @ [Invoked a nm]"
    using assms g by (auto simp: observe_op_def)
  then show ?thesis by (simp add: keeps_instance_invoked)
qed

lemma invoke_run_keeps:
  assumes "is_observed fo" and "invoke_run fo a ctx wl = (r, ctx', wl')"
  shows "keeps_instance a (snd wl) (snd wl')"
proof (cases fo)
  case None
  then show ?thesis using assms(2) by (auto simp: keeps_instance_refl)
next
  case (Some f)
  then obtain nm g where "f = observe_op nm g" using assms(1) by (auto simp: is_observed_def)
  then show ?thesis using assms(2) Some observe_op_keeps [of nm g a ctx wl r ctx' wl'] by simp
qed

lemma invoke_optional_keeps:
  assumes "is_observed fo" and "invoke_optional fo a ctx wl = (r, ctx', wl')"
  shows "keeps_instance a (snd wl) (snd wl')"
proof (cases fo)
  case None
  then show ?thesis using assms(2) by (auto simp: keeps_instance_refl)
next
  case (Some f)
  then obtain nm g where "f = observe_op nm g" using assms(1) by (auto simp: is_observed_def)
  then show ?thesis using assms(2) Some observe_op_keeps [of nm g a ctx wl r ctx' wl'] by simp
qed

lemma invocations_keeps:
  assumes "is_observed fo" and "invocations now fo a k ctx wl = (outs, ctx', wl')"
  shows "keeps_instance a (snd wl) (snd wl')"
  using assms(2)
proof (induction k arbitrary: ctx wl outs ctx' wl')
  case 0
  then show ?case by (simp add: keeps_instance_refl)
next
  case (Suc k)
  obtain r c1 wl1 where inv: "invoke_run fo a ctx wl = (r, c1, wl1)"
    using prod_cases3 by blast
  obtain rest c2 wl2 where rec: "invocations now fo a k c1 wl1 = (rest, c2, wl2)"
    using prod_cases3 by blast
  have e: "wl' = wl2" using Suc.prems inv rec by simp
  have "keeps_instance a (snd wl) (snd wl1)"
    using assms(1) inv by (rule invoke_run_keeps)
  moreover have "keeps_instance a (snd wl1) (snd wl2)"
    using rec by (rule Suc.IH)
  ultimately show ?case unfolding e by (rule keeps_instance_trans)
qed

lemma caseMap_observe:
  "caseMap (map observe_case cases) key =
     (case caseMap cases key of
        Own b \<Rightarrow> Own (observe_case b) | Inherited \<Rightarrow> Inherited | Missing \<Rightarrow> Missing)"
proof -
  have n: "name (observe_case c) = name c" for c :: "'a BenchCase"
    by (simp add: observe_case_def)
  have A: "map_of (map (\<lambda>c. (name c, c)) (map observe_case ys)) key
      = map_option observe_case (map_of (map (\<lambda>c. (name c, c)) ys) key)"
    for ys :: "'a BenchCase list"
    by (induction ys) (simp_all add: n)
  have "map_of (rev (map (\<lambda>c. (name c, c)) (map observe_case cases))) key
      = map_option observe_case (map_of (rev (map (\<lambda>c. (name c, c)) cases)) key)"
    using A [of "rev cases"] by (simp only: rev_map)
  then show ?thesis
    by (simp add: caseMap_def split: option.splits)
qed

lemma truthy_observe:
  "truthy (caseMap (map observe_case cases) key) = truthy (caseMap cases key)"
  by (cases "caseMap cases key") (simp_all add: caseMap_observe)

lemma members_observed:
  "is_observed (bench_setup (caseMap (map observe_case cases) key))"
  "is_observed (bench_run (caseMap (map observe_case cases) key))"
  "is_observed (bench_teardown (caseMap (map observe_case cases) key))"
  by (cases "caseMap cases key";
      auto simp: caseMap_observe is_observed_def observe_case_def split: option.splits)+

lemma runCase_keeps:
  assumes "runCase now (map observe_case cases) a key nm wu it wl = (res, wl')"
  shows "keeps_instance a (snd wl) (snd wl')"
proof -
  let ?C = "map observe_case cases"
  let ?b = "caseMap ?C key"
  show ?thesis
  proof (cases "truthy ?b")
    case False
    then have "wl' = wl" using assms by (simp add: runCase_def)
    then show ?thesis by (simp add: keeps_instance_refl)
  next
    case True
    obtain s c1 wl1 where st: "invoke_optional (bench_setup ?b) a Map.empty wl = (s, c1, wl1)"
      using prod_cases3 by blast
    have k1: "keeps_instance a (snd wl) (snd wl1)"
      using members_observed(1) st by (rule invoke_optional_keeps)
    show ?thesis
    proof (cases s)
      case (Some e)
      then have "wl' = wl1" using assms True st by (simp add: runCase_def)
      then show ?thesis using k1 by simp
    next
      case None
      obtain wouts c2 wl2 where wo: "invocations now (bench_run ?b) a (nat wu) c1 wl1 = (wouts, c2, wl2)"
        using prod_cases3 by blast
      obtain outs c3 wl3 where mo: "invocations now (bench_run ?b) a (nat it) c2 wl2 = (outs, c3, wl3)"
        using prod_cases3 by blast
      obtain td c4 wl4 where te: "invoke_optional (bench_teardown ?b) a c3 wl3 = (td, c4, wl4)"
        using prod_cases3 by blast
      have "wl' = wl4"
        using assms runCase_phases [OF True st [unfolded None] wo mo te, of nm] by simp
      moreover have "keeps_instance a (snd wl1) (snd wl2)"
        using members_observed(2) wo by (rule invocations_keeps)
      moreover have "keeps_instance a (snd wl2) (snd wl3)"
        using members_observed(2) mo by (rule invocations_keeps)
      moreover have "keeps_instance a (snd wl3) (snd wl4)"
        using members_observed(3) te by (rule invoke_optional_keeps)
      ultimately show ?thesis
        using k1 by (metis keeps_instance_trans)
    qed
  qed
qed

lemma cases_loop_keeps:
  "keeps_instance a (calls_of st)
     (calls_of (snd (cases_loop (observe_platform pf) (map observe_case cases) a nm wu it cs st)))"
proof (induction cs arbitrary: st)
  case Nil
  show ?case by (simp add: keeps_instance_refl)
next
  case (Cons c cs)
  let ?P = "observe_platform pf" and ?C = "map observe_case cases"
  obtain res wl' where rc: "runCase (perf_now ?P) ?C a c nm wu it (world st) = (res, wl')"
    by (cases "runCase (perf_now ?P) ?C a c nm wu it (world st)") auto
  have k: "keeps_instance a (calls_of st) (snd wl')"
    unfolding calls_of_def using rc by (rule runCase_keeps)
  show ?case
  proof (cases res)
    case (Inl e)
    then show ?thesis using rc k by (simp add: calls_of_def)
  next
    case (Inr r)
    let ?st = "st\<lparr> world := wl', trace := trace st @ [CaseRun a c], allResults := allResults st @ [r] \<rparr>"
    have "keeps_instance a (calls_of ?st) (calls_of (snd (cases_loop ?P ?C a nm wu it cs ?st)))"
      by (rule Cons.IH)
    moreover have "calls_of ?st = snd wl'" by (simp add: calls_of_def)
    ultimately have "keeps_instance a (calls_of st) (calls_of (snd (cases_loop ?P ?C a nm wu it cs ?st)))"
      using k by (metis keeps_instance_trans)
    then show ?thesis using rc Inr by simp
  qed
qed

lemma adapters_loop_release:
  assumes "discipline None (calls_of st) = Some None"
    and "released (calls_of st) = constructed (calls_of st)"
  shows "discipline None (calls_of (snd (adapters_loop (observe_platform pf) (map observe_case cases)
            caseNames wu it names st))) = Some None
       \<and> released (calls_of (snd (adapters_loop (observe_platform pf) (map observe_case cases)
            caseNames wu it names st)))
           = constructed (calls_of (snd (adapters_loop (observe_platform pf) (map observe_case cases)
               caseNames wu it names st)))
       \<and> prefix (map Inr (constructed (calls_of (snd (adapters_loop (observe_platform pf)
            (map observe_case cases) caseNames wu it names st)))))
           (map Inr (constructed (calls_of st)) @ map createAdapter names)
       \<and> (fst (adapters_loop (observe_platform pf) (map observe_case cases) caseNames wu it names st)
             = None \<longrightarrow>
            map Inr (constructed (calls_of (snd (adapters_loop (observe_platform pf)
              (map observe_case cases) caseNames wu it names st))))
              = map Inr (constructed (calls_of st)) @ map createAdapter names)"
  using assms
proof (induction names arbitrary: st)
  case Nil
  then show ?case by simp
next
  case (Cons nm names)
  let ?P = "observe_platform pf" and ?C = "map observe_case cases"
  show ?case
  proof (cases "createAdapter nm")
    case (Inl e)
    then show ?thesis using Cons.prems by simp
  next
    case (Inr a)
    define st0 where "st0 = st\<lparr> world := construct_op ?P a (world st), trace := trace st @ [Created a] \<rparr>"
    have c0: "calls_of st0 = calls_of st @ [Constructed a]"
      by (simp add: st0_def calls_of_def observe_platform_def)
    define st1 where "st1 = snd (cases_loop ?P ?C a nm wu it caseNames st0)"
    define thrown where "thrown = fst (cases_loop ?P ?C a nm wu it caseNames st0)"
    have cl: "cases_loop ?P ?C a nm wu it caseNames st0 = (thrown, st1)"
      by (simp add: st1_def thrown_def)
    have k: "keeps_instance a (calls_of st0) (calls_of st1)"
      unfolding st1_def by (rule cases_loop_keeps)
    have "discipline None (calls_of st0) = Some (Some a)"
      by (simp add: c0 discipline_append Cons.prems(1))
    then have l1: "discipline None (calls_of st1) = Some (Some a)"
      using k by (simp add: keeps_instance_def)
    have c1: "constructed (calls_of st1) = constructed (calls_of st) @ [a]"
      "released (calls_of st1) = released (calls_of st)"
      using k by (simp_all add: keeps_instance_def c0 constructed_append released_append)
    define closed_r where "closed_r = fst (close_op ?P a (world st1))"
    define w2 where "w2 = snd (close_op ?P a (world st1))"
    have co: "close_op ?P a (world st1) = (closed_r, w2)"
      by (simp add: closed_r_def w2_def)
    define st2 where "st2 = st1\<lparr> world := w2, trace := trace st1 @ [Closed a] \<rparr>"
    have "snd w2 = calls_of st1 @ [Released a]"
      by (simp add: w2_def calls_of_def observe_platform_def split: prod.splits)
    then have c2': "calls_of st2 = calls_of st1 @ [Released a]"
      by (simp add: st2_def calls_of_def)
    have l2: "discipline None (calls_of st2) = Some None"
      by (simp add: c2' discipline_append l1)
    have c2: "constructed (calls_of st2) = constructed (calls_of st) @ [a]"
      "released (calls_of st2) = constructed (calls_of st2)"
      by (simp_all add: c2' constructed_append released_append c1 Cons.prems(2))
    show ?thesis
    proof (cases "closed_r = None \<and> thrown = None")
      case True
      then have step: "adapters_loop ?P ?C caseNames wu it (nm # names) st
          = adapters_loop ?P ?C caseNames wu it names st2"
        using Inr cl co by (simp add: st2_def st0_def)
      show ?thesis
        unfolding step using Cons.IH [OF l2 c2(2)] by (simp add: c2(1) Inr)
    next
      case False
      then have step: "adapters_loop ?P ?C caseNames wu it (nm # names) st
          = (Some (case closed_r of Some e \<Rightarrow> e | None \<Rightarrow> the thrown), st2)"
        using Inr cl co by (cases closed_r; cases thrown) (simp_all add: st2_def st0_def)
      show ?thesis
        unfolding step using l2 c2 by (simp add: Inr)
    qed
  qed
qed

lemma persist_calls:
  "calls_of (snd (persist (observe_platform pf) st)) = calls_of st"
  by (simp add: persist_def Let_def calls_of_def observe_platform_def
      split: prod.splits option.splits sum.splits)

lemma invoke_run_plain:
  assumes "invoke_run (map_option (observe_op nm) fo) a ctx wl = (r, ctx', wl')"
  shows "invoke_run fo a ctx (fst wl) = (r, ctx', fst wl')"
  using assms by (cases fo) (auto simp: observe_op_def split: prod.splits)

lemma invoke_optional_plain:
  assumes "invoke_optional (map_option (observe_op nm) fo) a ctx wl = (r, ctx', wl')"
  shows "invoke_optional fo a ctx (fst wl) = (r, ctx', fst wl')"
  using assms by (cases fo) (auto simp: observe_op_def split: prod.splits)

lemma invocations_plain:
  assumes "invocations (\<lambda>wl. now (fst wl)) (map_option (observe_op nm) fo) a k ctx wl = (outs, ctx', wl')"
  shows "invocations now fo a k ctx (fst wl) = (outs, ctx', fst wl')"
  using assms
proof (induction k arbitrary: ctx wl outs ctx' wl')
  case 0
  then show ?case by auto
next
  case (Suc k)
  let ?fo = "map_option (observe_op nm) fo"
  obtain r c1 wl1 where inv: "invoke_run ?fo a ctx wl = (r, c1, wl1)"
    using prod_cases3 by blast
  obtain rest c2 wl2 where rec: "invocations (\<lambda>wl. now (fst wl)) ?fo a k c1 wl1 = (rest, c2, wl2)"
    using prod_cases3 by blast
  have e: "outs = (r, fl (now (fst wl1) - now (fst wl))) # rest" "ctx' = c2" "wl' = wl2"
    using Suc.prems inv rec by simp_all
  have "invoke_run fo a ctx (fst wl) = (r, c1, fst wl1)"
    using inv by (rule invoke_run_plain)
  moreover have "invocations now fo a k c1 (fst wl1) = (rest, c2, fst wl2)"
    using rec by (rule Suc.IH)
  ultimately show ?case by (simp add: e)
qed

lemma members_plain:
  "\<exists>nm. bench_setup (caseMap (map observe_case cases) key)
     = map_option (observe_op nm) (bench_setup (caseMap cases key))"
  "\<exists>nm. bench_run (caseMap (map observe_case cases) key)
     = map_option (observe_op nm) (bench_run (caseMap cases key))"
  "\<exists>nm. bench_teardown (caseMap (map observe_case cases) key)
     = map_option (observe_op nm) (bench_teardown (caseMap cases key))"
  by (cases "caseMap cases key"; simp add: caseMap_observe observe_case_def; blast)+

lemma runCase_plain:
  assumes "runCase (\<lambda>wl. now (fst wl)) (map observe_case cases) a key nm wu it wl = (res, wl')"
  shows "runCase now cases a key nm wu it (fst wl) = (res, fst wl')"
proof -
  let ?C = "map observe_case cases"
  let ?N = "\<lambda>wl. now (fst wl)"
  let ?b = "caseMap ?C key" and ?p = "caseMap cases key"
  obtain n1 where m1: "bench_setup ?b = map_option (observe_op n1) (bench_setup ?p)"
    using members_plain(1) by blast
  obtain n2 where m2: "bench_run ?b = map_option (observe_op n2) (bench_run ?p)"
    using members_plain(2) by blast
  obtain n3 where m3: "bench_teardown ?b = map_option (observe_op n3) (bench_teardown ?p)"
    using members_plain(3) by blast
  show ?thesis
  proof (cases "truthy ?p")
    case False
    then have "\<not> truthy ?b" by (simp add: truthy_observe)
    then have "res = Inl (Error (''Unknown case: '' @ key))" "wl' = wl"
      using assms by (simp_all add: runCase_unknown)
    then show ?thesis using False by (simp add: runCase_unknown)
  next
    case True
    then have tb: "truthy ?b" by (simp add: truthy_observe)
    obtain s c1 wl1 where st: "invoke_optional (bench_setup ?b) a Map.empty wl = (s, c1, wl1)"
      using prod_cases3 by blast
    have st': "invoke_optional (bench_setup ?p) a Map.empty (fst wl) = (s, c1, fst wl1)"
      using st unfolding m1 by (rule invoke_optional_plain)
    show ?thesis
    proof (cases s)
      case (Some e)
      have "runCase ?N ?C a key nm wu it wl = (Inl e, wl1)"
        using tb st [unfolded Some] by (rule runCase_setup_fails)
      then have "res = Inl e" "wl' = wl1" using assms by simp_all
      then show ?thesis
        using runCase_setup_fails [OF True st' [unfolded Some], of now nm wu it] by simp
    next
      case None
      obtain wouts c2 wl2 where wo: "invocations ?N (bench_run ?b) a (nat wu) c1 wl1 = (wouts, c2, wl2)"
        using prod_cases3 by blast
      obtain outs c3 wl3 where mo: "invocations ?N (bench_run ?b) a (nat it) c2 wl2 = (outs, c3, wl3)"
        using prod_cases3 by blast
      obtain td c4 wl4 where te: "invoke_optional (bench_teardown ?b) a c3 wl3 = (td, c4, wl4)"
        using prod_cases3 by blast
      have wo': "invocations now (bench_run ?p) a (nat wu) c1 (fst wl1) = (wouts, c2, fst wl2)"
        using wo unfolding m2 by (rule invocations_plain)
      have mo': "invocations now (bench_run ?p) a (nat it) c2 (fst wl2) = (outs, c3, fst wl3)"
        using mo unfolding m2 by (rule invocations_plain)
      have te': "invoke_optional (bench_teardown ?p) a c3 (fst wl3) = (td, c4, fst wl4)"
        using te unfolding m3 by (rule invoke_optional_plain)
      have "(res, wl') = ((case td of Some e \<Rightarrow> Inl e
          | None \<Rightarrow> Inr (make_result nm key wu it (map snd outs) (int (length (rejected outs))))), wl4)"
        using assms runCase_phases [OF tb st [unfolded None] wo mo te, of nm] by simp
      then show ?thesis
        using runCase_phases [OF True st' [unfolded None] wo' mo' te', of nm] by simp
    qed
  qed
qed

lemma unobserve_sel [simp]:
  "world (unobserve st) = fst (world st)"
  "trace (unobserve st) = trace st"
  "allResults (unobserve st) = allResults st"
  by (simp_all add: unobserve_def)

lemma unobserve_update:
  "unobserve (st\<lparr> world := wl, trace := tr \<rparr>) = (unobserve st)\<lparr> world := fst wl, trace := tr \<rparr>"
  "unobserve (st\<lparr> world := wl, trace := tr, allResults := rs \<rparr>)
     = (unobserve st)\<lparr> world := fst wl, trace := tr, allResults := rs \<rparr>"
  "unobserve (st\<lparr> world := wl \<rparr>) = (unobserve st)\<lparr> world := fst wl \<rparr>"
  by (simp_all add: unobserve_def)

lemma cases_loop_plain:
  "cases_loop pf cases a nm wu it cs (unobserve st)
     = map_prod id unobserve
         (cases_loop (observe_platform pf) (map observe_case cases) a nm wu it cs st)"
proof (induction cs arbitrary: st)
  case Nil
  show ?case by simp
next
  case (Cons c cs)
  let ?P = "observe_platform pf" and ?C = "map observe_case cases"
  have pn: "perf_now ?P = (\<lambda>wl. perf_now pf (fst wl))" by (simp add: observe_platform_def)
  obtain res wl' where rc: "runCase (perf_now ?P) ?C a c nm wu it (world st) = (res, wl')"
    by (cases "runCase (perf_now ?P) ?C a c nm wu it (world st)") auto
  have rc': "runCase (perf_now pf) cases a c nm wu it (fst (world st)) = (res, fst wl')"
    using rc unfolding pn by (rule runCase_plain)
  show ?case
  proof (cases res)
    case (Inl e)
    then show ?thesis using rc rc' by (simp add: unobserve_update)
  next
    case (Inr r)
    then show ?thesis using rc rc' Cons.IH by (simp add: unobserve_update flip: unobserve_update(2))
  qed
qed

lemma adapters_loop_plain:
  "adapters_loop pf cases caseNames wu it names (unobserve st)
     = map_prod id unobserve
         (adapters_loop (observe_platform pf) (map observe_case cases) caseNames wu it names st)"
proof (induction names arbitrary: st)
  case Nil
  show ?case by simp
next
  case (Cons nm names)
  let ?P = "observe_platform pf" and ?C = "map observe_case cases"
  show ?case
  proof (cases "createAdapter nm")
    case (Inl e)
    then show ?thesis by simp
  next
    case (Inr a)
    define st0 where "st0 = st\<lparr> world := construct_op ?P a (world st), trace := trace st @ [Created a] \<rparr>"
    have u0: "unobserve st0
        = (unobserve st)\<lparr> world := construct_op pf a (fst (world st)), trace := trace st @ [Created a] \<rparr>"
      by (simp add: st0_def unobserve_def observe_platform_def)
    obtain thrown st1 where cl: "cases_loop ?P ?C a nm wu it caseNames st0 = (thrown, st1)"
      by (cases "cases_loop ?P ?C a nm wu it caseNames st0") auto
    have cl': "cases_loop pf cases a nm wu it caseNames (unobserve st0) = (thrown, unobserve st1)"
      using cl by (simp add: cases_loop_plain)
    obtain closed_r w2 where co: "close_op ?P a (world st1) = (closed_r, w2)"
      by (cases "close_op ?P a (world st1)") auto
    have co': "close_op pf a (fst (world st1)) = (closed_r, fst w2)"
      using co by (auto simp: observe_platform_def split: prod.splits)
    define st2 where "st2 = st1\<lparr> world := w2, trace := trace st1 @ [Closed a] \<rparr>"
    have u2: "unobserve st2 = (unobserve st1)\<lparr> world := fst w2, trace := trace st1 @ [Closed a] \<rparr>"
      by (simp add: st2_def unobserve_def)
    have obs: "adapters_loop ?P ?C caseNames wu it (nm # names) st
        = (case closed_r of Some e \<Rightarrow> (Some e, st2)
           | None \<Rightarrow> (case thrown of Some e \<Rightarrow> (Some e, st2)
                      | None \<Rightarrow> adapters_loop ?P ?C caseNames wu it names st2))"
      using Inr cl co by (cases closed_r; cases thrown) (simp_all add: st0_def st2_def Let_def)
    have pl: "adapters_loop pf cases caseNames wu it (nm # names) (unobserve st)
        = (case closed_r of Some e \<Rightarrow> (Some e, unobserve st2)
           | None \<Rightarrow> (case thrown of Some e \<Rightarrow> (Some e, unobserve st2)
                      | None \<Rightarrow> adapters_loop pf cases caseNames wu it names (unobserve st2)))"
      using Inr cl' [unfolded u0] co' by (cases closed_r; cases thrown) (simp_all add: u2 Let_def)
    show ?thesis
      unfolding obs pl using Cons.IH [of st2] by (cases closed_r; cases thrown) simp_all
  qed
qed

lemma persist_plain:
  "persist pf (unobserve st) = map_prod id unobserve (persist (observe_platform pf) st)"
  by (simp add: persist_def Let_def unobserve_def observe_platform_def
      split: prod.splits option.splits sum.splits)

text \<open>
  Observation is transparent: apart from the log, the observed run is the run of the observed
  platform and cases, step for step, with the same completion, trace, results and world.
\<close>

lemma main_observed:
  "main pf cases adapterNames caseOpt wu it outDir w
     = map_prod id unobserve
         (main (observe_platform pf) (map observe_case cases) adapterNames caseOpt wu it outDir (w, l))"
proof -
  let ?P = "observe_platform pf" and ?C = "map observe_case cases"
  define caseNames where "caseNames = (case caseOpt of Some cs \<Rightarrow> cs | None \<Rightarrow> map name cases)"
  have nm: "map name ?C = map name cases" by (simp add: observe_case_def)
  have cn: "(case caseOpt of Some cs \<Rightarrow> cs | None \<Rightarrow> map name ?C) = caseNames"
    by (simp only: caseNames_def nm)
  have tr: "(\<lambda>c. \<not> truthy (caseMap ?C c)) = (\<lambda>c. \<not> truthy (caseMap cases c))"
    by (simp add: truthy_observe)
  have msg: "unknown_case_message ?C c = unknown_case_message cases c" for c
    by (simp only: unknown_case_message_def nm)
  obtain r w1 where mk: "mkdirSync ?P outDir (w, l) = (r, w1)"
    by (cases "mkdirSync ?P outDir (w, l)") auto
  have mk': "mkdirSync pf outDir w = (r, fst w1)"
    using mk by (auto simp: observe_platform_def split: prod.splits)
  define st0 :: "('a \<times> call list) run_state"
    where "st0 = \<lparr> world = w1, trace = [MkDir outDir], allResults = [] \<rparr>"
  have u0: "\<lparr> world = fst w1, trace = [MkDir outDir], allResults = [] \<rparr> = unobserve st0"
    by (simp add: st0_def unobserve_def)
  obtain thrown st where al: "adapters_loop ?P ?C caseNames wu it adapterNames st0 = (thrown, st)"
    by (cases "adapters_loop ?P ?C caseNames wu it adapterNames st0") auto
  have al': "adapters_loop pf cases caseNames wu it adapterNames (unobserve st0) = (thrown, unobserve st)"
    using al by (simp add: adapters_loop_plain)
  show ?thesis
    unfolding main_def cn tr msg Let_def caseNames_def [symmetric]
    using mk mk' al al' [folded u0] persist_plain [of pf st]
    by (simp add: unobserve_def st0_def [symmetric] split: option.splits)
qed

section \<open>Properties of the summary table\<close>

lemma digits_small: "n < 10 \<Longrightarrow> digits n = [digit_char n]"
  by (subst digits.simps) simp

lemma digits_step: "10 \<le> n \<Longrightarrow> digits n = digits (n div 10) @ [digit_char (n mod 10)]"
  by (subst digits.simps) simp

lemma digit_char_0: "digit_char 0 = CHR ''0''"
  by (simp add: digit_char_def)

lemma digits_last3:
  assumes "1000 \<le> n"
  shows "digits n = digits (n div 1000)
           @ [digit_char (n div 100 mod 10), digit_char (n div 10 mod 10), digit_char (n mod 10)]"
proof -
  have a: "10 \<le> n" "10 \<le> n div 10" "10 \<le> n div 10 div 10"
    using assms by simp_all
  have d: "n div 10 div 10 = n div 100" "n div 100 div 10 = n div 1000"
    by (simp_all add: div_mult2_eq [symmetric])
  show ?thesis
    using digits_step [OF a(1)] digits_step [OF a(2)] digits_step [OF a(3)] by (simp add: d)
qed

lemma digits_nonempty: "digits n \<noteq> []"
  by (subst digits.simps) simp

lemma replicate_small:
  "replicate 3 c = [c, c, c]" "replicate 2 c = [c, c]"
  by (simp_all add: numeral_3_eq_3 numeral_2_eq_2)

lemma digits_padded:
  "(let m = digits n;
        m = (if length m \<le> 3 then replicate (3 + 1 - length m) (CHR ''0'') @ m else m);
        k = length m
    in take (k - 3) m @ ''.'' @ drop (k - 3) m)
   = digits (n div 1000) @ ''.''
       @ [digit_char (n div 100 mod 10), digit_char (n div 10 mod 10), digit_char (n mod 10)]"
proof -
  consider "n < 10" | "10 \<le> n" "n < 100" | "100 \<le> n" "n < 1000" | "1000 \<le> n"
    by linarith
  then show ?thesis
  proof cases
    case 1
    then show ?thesis
      by (simp add: Let_def digits_small digit_char_0 replicate_small)
  next
    case 2
    then have "digits n = [digit_char (n div 10), digit_char (n mod 10)]"
      by (simp add: digits_step digits_small)
    then show ?thesis
      using 2 by (simp add: Let_def digits_small digit_char_0 replicate_small)
  next
    case 3
    then have "10 \<le> n div 10" "n div 10 div 10 < 10" by simp_all
    then have "digits n = [digit_char (n div 10 div 10), digit_char (n div 10 mod 10), digit_char (n mod 10)]"
      using 3 by (simp add: digits_step digits_small)
    moreover have "n div 10 div 10 = n div 100" by (simp add: div_mult2_eq [symmetric])
    moreover have "n div 100 mod 10 = n div 100" using 3 by simp
    ultimately show ?thesis
      using 3 by (simp add: Let_def digits_small digit_char_0 replicate_small)
  next
    case 4
    show ?thesis
      by (simp add: Let_def digits_last3 [OF 4] digits_nonempty)
  qed
qed

lemma toFixed3_finite:
  assumes "0 \<le> x" and "x < 10 ^ 21"
  shows "toFixed big 3 (Num x) =
     Inr (digits (nat \<lfloor>x * 1000 + 1 / 2\<rfloor> div 1000) @ ''.''
          @ [digit_char (nat \<lfloor>x * 1000 + 1 / 2\<rfloor> div 100 mod 10),
             digit_char (nat \<lfloor>x * 1000 + 1 / 2\<rfloor> div 10 mod 10),
             digit_char (nat \<lfloor>x * 1000 + 1 / 2\<rfloor> mod 10)])"
proof -
  define n where "n = nat \<lfloor>x * 1000 + 1 / 2\<rfloor>"
  have ax: "\<bar>x\<bar> = x" using assms(1) by simp
  have "toFixed big 3 (Num x) =
      Inr (let m = digits n;
               m = (if length m \<le> 3 then replicate (3 + 1 - length m) (CHR ''0'') @ m else m);
               k = length m
           in take (k - 3) m @ ''.'' @ drop (k - 3) m)"
    using assms unfolding toFixed.simps(5) ax n_def Let_def by simp
  then show ?thesis
    unfolding digits_padded n_def .
qed

section \<open>Example runs\<close>

lemmas digits_eval = digits_small digits_step digit_char_def

lemma computeStats_111:
  "computeStats [1, 1, 1] =
     \<lparr> mean = Num 1, p50 = Num 1, p95 = Num 1, p99 = Num 1, stat_min = Num 1, stat_max = Num 1 \<rparr>"
  by (simp add: computeStats_def Let_def percentile_used nearest_rank_index_def js_number_small
      nth_js_def nullish_def)

lemma demo_run_ping:
  "runCase demo_now demo_cases a ''ping'' nm 2 3 w = (Inr (make_result nm ''ping'' 2 3 [1, 1, 1] 0), w + 5)"
  by (simp add: runCase_def demo_defs warmup_loop.simps measure_loop.simps)

lemma csv_row_ping:
  "csv_row big (make_result ''raw'' ''ping'' 2 3 [1, 1, 1] 0)
     = Inr ''raw,ping,3,1.000,1.000,1.000,1.000,1.000,1.000,0''"
  by (simp add: csv_row_def csv_cells_def computeStats_111 toFixed3_finite int_toString_def digits_eval)


lemma csv_row_ping_orm:
  "csv_row big (make_result ''orm'' ''ping'' 2 3 [1, 1, 1] 0)
     = Inr ''orm,ping,3,1.000,1.000,1.000,1.000,1.000,1.000,0''"
  by (simp add: csv_row_def csv_cells_def computeStats_111 toFixed3_finite int_toString_def digits_eval)

lemma demo_platform_sel:
  "perf_now demo_platform = demo_now"
  "construct_op demo_platform = (\<lambda>a w. w)"
  "close_op demo_platform = (\<lambda>a w. (None, w))"
  "mkdirSync demo_platform = (\<lambda>dir w. (None, w))"
  "writeFileSync demo_platform = (\<lambda>w. (None, w))"
  "number_toString demo_platform = (\<lambda>x. ''1e+21'')"
  by (simp_all add: demo_platform_def)

lemma demo_members:
  "truthy (caseMap demo_cases ''ping'')"
  "truthy (caseMap demo_cases ''bad_setup'')"
  "truthy (caseMap demo_cases ''toString'')"
  "\<not> truthy (caseMap demo_cases ''pong'')"
  by (simp_all add: caseMap_def demo_cases_def object_prototype_keys_def)

lemmas main_eval = main_def persist_def toCsv_def ADAPTER_NAMES_def createAdapter_def
  demo_platform_sel demo_members

lemma demo_main_resolved:
  "main demo_platform demo_cases [''raw'', ''orm''] (Some [''ping'']) 2 3 ''out'' 0 =
     (Resolved,
      \<lparr> world = 10,
        trace = [MkDir ''out'',
                 Created RawSqlAdapter, CaseRun RawSqlAdapter ''ping'', Closed RawSqlAdapter,
                 Created PrismaAdapter, CaseRun PrismaAdapter ''ping'', Closed PrismaAdapter,
                 WroteJson [make_result ''raw'' ''ping'' 2 3 [1, 1, 1] 0,
                            make_result ''orm'' ''ping'' 2 3 [1, 1, 1] 0],
                 WroteCsv (csv_header @ [CHR 0x0A]
                   @ ''raw,ping,3,1.000,1.000,1.000,1.000,1.000,1.000,0'' @ [CHR 0x0A]
                   @ ''orm,ping,3,1.000,1.000,1.000,1.000,1.000,1.000,0'')],
        allResults = [make_result ''raw'' ''ping'' 2 3 [1, 1, 1] 0,
                      make_result ''orm'' ''ping'' 2 3 [1, 1, 1] 0] \<rparr>)"
  by (simp add: main_eval demo_run_ping csv_row_ping csv_row_ping_orm)

lemma demo_run_bad_setup:
  "runCase demo_now demo_cases a ''bad_setup'' nm 2 3 w = (Inl (Error ''setup failed''), Suc w)"
  by (simp add: runCase_def demo_defs)

lemma demo_main_setup_raises:
  "main demo_platform demo_cases [''raw'', ''orm''] (Some [''ping'', ''bad_setup'', ''ping'']) 2 3 ''out'' 0 =
     (Rejected (Error ''setup failed''),
      \<lparr> world = 6,
        trace = [MkDir ''out'',
                 Created RawSqlAdapter, CaseRun RawSqlAdapter ''ping'',
                 CaseRun RawSqlAdapter ''bad_setup'', Closed RawSqlAdapter],
        allResults = [make_result ''raw'' ''ping'' 2 3 [1, 1, 1] 0] \<rparr>)"
  by (simp add: main_eval demo_run_ping demo_run_bad_setup)

lemma computeStats_000:
  "computeStats [0, 0, 0] =
     \<lparr> mean = Num 0, p50 = Num 0, p95 = Num 0, p99 = Num 0, stat_min = Num 0, stat_max = Num 0 \<rparr>"
  by (simp add: computeStats_def Let_def percentile_used nearest_rank_index_def js_number_small
      nth_js_def nullish_def)

lemma demo_run_toString:
  "runCase demo_now demo_cases a ''toString'' nm 2 3 w
     = (Inr (make_result nm ''toString'' 2 3 [0, 0, 0] 3), w)"
  by (simp add: runCase_def demo_defs warmup_loop.simps measure_loop.simps)

lemma csv_row_toString:
  "csv_row big (make_result ''raw'' ''toString'' 2 3 [0, 0, 0] 3)
     = Inr ''raw,toString,3,0.000,0.000,0.000,0.000,0.000,0.000,3''"
  by (simp add: csv_row_def csv_cells_def computeStats_000 toFixed3_finite int_toString_def digits_eval)

lemma demo_main_toString:
  "main demo_platform demo_cases [''raw''] (Some [''toString'']) 2 3 ''out'' 0 =
     (Resolved,
      \<lparr> world = 0,
        trace = [MkDir ''out'',
                 Created RawSqlAdapter, CaseRun RawSqlAdapter ''toString'', Closed RawSqlAdapter,
                 WroteJson [make_result ''raw'' ''toString'' 2 3 [0, 0, 0] 3],
                 WroteCsv (csv_header @ [CHR 0x0A]
                   @ ''raw,toString,3,0.000,0.000,0.000,0.000,0.000,0.000,3'')],
        allResults = [make_result ''raw'' ''toString'' 2 3 [0, 0, 0] 3] \<rparr>)"
  by (simp add: main_eval demo_run_toString csv_row_toString)

lemma demo_run_ping_zero:
  "runCase demo_now demo_cases a ''ping'' nm 2 0 w = (Inr (make_result nm ''ping'' 2 0 [] 0), w + 2)"
  by (simp add: runCase_def demo_defs warmup_loop.simps measure_loop.simps)

lemma csv_row_ping_zero:
  "csv_row big (make_result ''raw'' ''ping'' 2 0 [] 0)
     = Inr ''raw,ping,0,NaN,0.000,0.000,0.000,0.000,0.000,0''"
  by (simp add: csv_row_def csv_cells_def computeStats_def percentile_def nth_js_def
      nullish_def toFixed3_finite int_toString_def digits_eval)


text \<open>The same runs on the observing platform, with the log of calls they leave.\<close>

lemma observed_run_ping:
  "runCase (perf_now (observe_platform demo_platform)) (map observe_case demo_cases) a ''ping'' nm
       2 3 (w, l)
     = (Inr (make_result nm ''ping'' 2 3 [1, 1, 1] 0),
        (w + 5, l @ replicate 5 (Invoked a ''ping'')))"
  by (simp add: runCase_def demo_defs demo_platform_def observe_platform_def observe_case_def
      observe_op_def warmup_loop.simps measure_loop.simps eval_nat_numeral)

lemma observed_run_bad_setup:
  "runCase (perf_now (observe_platform demo_platform)) (map observe_case demo_cases) a ''bad_setup''
       nm 2 3 (w, l)
     = (Inl (Error ''setup failed''), (Suc w, l @ [Invoked a ''bad_setup'']))"
  by (simp add: runCase_def demo_defs demo_platform_def observe_platform_def observe_case_def
      observe_op_def)

lemma observed_members:
  "truthy (caseMap (map observe_case demo_cases) ''ping'')"
  "truthy (caseMap (map observe_case demo_cases) ''bad_setup'')"
  by (simp_all add: truthy_observe demo_members)

lemma observed_platform_sel:
  "construct_op (observe_platform demo_platform) = (\<lambda>a wl. (fst wl, snd wl @ [Constructed a]))"
  "close_op (observe_platform demo_platform) = (\<lambda>a wl. (None, (fst wl, snd wl @ [Released a])))"
  "mkdirSync (observe_platform demo_platform) = (\<lambda>dir wl. (None, (fst wl, snd wl)))"
  "writeFileSync (observe_platform demo_platform) = (\<lambda>wl. (None, (fst wl, snd wl)))"
  "number_toString (observe_platform demo_platform) = (\<lambda>x. ''1e+21'')"
  by (simp_all add: observe_platform_def demo_platform_def)

lemma observed_main_resolved:
  "fst (main (observe_platform demo_platform) (map observe_case demo_cases) [''raw'', ''orm'']
         (Some [''ping'']) 2 3 ''out'' (0, [])) = Resolved"
  "calls_of (snd (main (observe_platform demo_platform) (map observe_case demo_cases)
         [''raw'', ''orm''] (Some [''ping'']) 2 3 ''out'' (0, [])))
     = Constructed RawSqlAdapter # replicate 5 (Invoked RawSqlAdapter ''ping'')
       @ Released RawSqlAdapter
       # Constructed PrismaAdapter # replicate 5 (Invoked PrismaAdapter ''ping'')
       @ [Released PrismaAdapter]"
  by (simp_all add: main_def persist_def toCsv_def ADAPTER_NAMES_def createAdapter_def
      observed_platform_sel observed_members observed_run_ping csv_row_ping csv_row_ping_orm
      calls_of_def)

lemma observed_main_setup_raises:
  "fst (main (observe_platform demo_platform) (map observe_case demo_cases) [''raw'', ''orm'']
         (Some [''ping'', ''bad_setup'', ''ping'']) 2 3 ''out'' (0, []))
     = Rejected (Error ''setup failed'')"
  "calls_of (snd (main (observe_platform demo_platform) (map observe_case demo_cases)
         [''raw'', ''orm''] (Some [''ping'', ''bad_setup'', ''ping'']) 2 3 ''out'' (0, [])))
     = Constructed RawSqlAdapter # replicate 5 (Invoked RawSqlAdapter ''ping'')
       @ [Invoked RawSqlAdapter ''bad_setup'', Released RawSqlAdapter]"
  by (simp_all add: main_def persist_def toCsv_def ADAPTER_NAMES_def createAdapter_def
      observed_platform_sel observed_members observed_run_ping observed_run_bad_setup
      calls_of_def)

lemma constructed_invoked [simp]:
  "constructed (replicate n (Invoked a nm) @ cs) = constructed cs"
  by (induction n) simp_all

lemma released_invoked [simp]:
  "released (replicate n (Invoked a nm) @ cs) = released cs"
  by (induction n) simp_all

section \<open>Release of the adapters, validation and the summary table\<close>

text \<open>
  C5. Run on an observing platform, whatever the observed adapters, cases and platform do, the
  calls that reach the world obey the release discipline: every adapter instance that is
  constructed has its \<^verbatim>\<open>close\<close> called exactly once, after the lifecycle operations invoked on
  it and before the next instance is constructed, also when a case run rejects or \<^verbatim>\<open>close\<close>
  itself does (the error then ends the run after the \<^verbatim>\<open>close\<close>). The instances constructed are
  those of a prefix of the selected names, in order, and of all of them when the run resolves.
  By \<open>main_observed\<close> the observed run is, apart from the log, the run itself.
\<close>

theorem strategy_released_once:
  "released_once (calls_of (snd (main (observe_platform pf) (map observe_case cases)
       adapterNames caseOpt wu it outDir (w, []))))
   \<and> released (calls_of (snd (main (observe_platform pf) (map observe_case cases)
       adapterNames caseOpt wu it outDir (w, []))))
     = constructed (calls_of (snd (main (observe_platform pf) (map observe_case cases)
         adapterNames caseOpt wu it outDir (w, []))))
   \<and> prefix (map Inr (constructed (calls_of (snd (main (observe_platform pf) (map observe_case cases)
         adapterNames caseOpt wu it outDir (w, []))))))
       (map createAdapter adapterNames)
   \<and> (fst (main (observe_platform pf) (map observe_case cases)
         adapterNames caseOpt wu it outDir (w, [])) = Resolved \<longrightarrow>
        map Inr (constructed (calls_of (snd (main (observe_platform pf) (map observe_case cases)
          adapterNames caseOpt wu it outDir (w, [])))))
          = map createAdapter adapterNames)"
proof -
  let ?P = "observe_platform pf" and ?C = "map observe_case cases"
  define caseNames where "caseNames = (case caseOpt of Some cs \<Rightarrow> cs | None \<Rightarrow> map name ?C)"
  let ?m = "main ?P ?C adapterNames caseOpt wu it outDir (w, [])"
  show ?thesis
  proof (cases "find (\<lambda>a. a \<notin> set ADAPTER_NAMES) adapterNames")
    case (Some a)
    then have "?m = (Exited 1, \<lparr> world = (w, []), trace = [ConsoleError (unknown_adapter_message a)],
        allResults = [] \<rparr>)"
      by (simp add: main_def)
    then show ?thesis by (simp add: released_once_def calls_of_def)
  next
    case None
    note adapters_ok = this
    show ?thesis
    proof (cases "find (\<lambda>c. \<not> truthy (caseMap ?C c)) caseNames")
      case (Some c)
      then have "?m = (Exited 1, \<lparr> world = (w, []), trace = [ConsoleError (unknown_case_message ?C c)],
          allResults = [] \<rparr>)"
        using adapters_ok by (simp add: main_def caseNames_def)
      then show ?thesis by (simp add: released_once_def calls_of_def)
    next
      case None
      note cases_ok = this
      obtain mk w1 where mk: "mkdirSync ?P outDir (w, []) = (mk, w1)"
        by (cases "mkdirSync ?P outDir (w, [])") auto
      have w1: "snd w1 = []"
        using mk by (auto simp: observe_platform_def split: prod.splits)
      show ?thesis
      proof (cases mk)
        case (Some e)
        then have "?m = (Rejected e, \<lparr> world = w1, trace = [], allResults = [] \<rparr>)"
          using adapters_ok cases_ok mk by (simp add: main_def caseNames_def)
        then show ?thesis using w1 by (simp add: released_once_def calls_of_def)
      next
        case None
        let ?st0 = "\<lparr> world = w1, trace = [MkDir outDir], allResults = [] \<rparr>"
        let ?loop = "adapters_loop ?P ?C caseNames wu it adapterNames ?st0"
        have c0: "calls_of ?st0 = []" using w1 by (simp add: calls_of_def)
        have inv: "discipline None (calls_of (snd ?loop)) = Some None"
          "released (calls_of (snd ?loop)) = constructed (calls_of (snd ?loop))"
          "prefix (map Inr (constructed (calls_of (snd ?loop)))) (map createAdapter adapterNames)"
          "fst ?loop = None \<longrightarrow>
             map Inr (constructed (calls_of (snd ?loop))) = map createAdapter adapterNames"
          using adapters_loop_release [of ?st0 pf cases caseNames wu it adapterNames]
          by (simp_all add: c0)
        have m: "?m = (case ?loop of (Some e, st) \<Rightarrow> (Rejected e, st) | (None, st) \<Rightarrow> persist ?P st)"
          using adapters_ok cases_ok mk None by (simp add: main_def caseNames_def)
        show ?thesis
        proof (cases "fst ?loop")
          case None
          then have "?m = persist ?P (snd ?loop)"
            unfolding m by (simp add: case_prod_beta)
          then show ?thesis
            using inv None by (simp add: released_once_def persist_calls)
        next
          case (Some e)
          then have "?m = (Rejected e, snd ?loop)"
            unfolding m by (simp add: case_prod_beta)
          then show ?thesis
            using inv by (simp add: released_once_def)
        qed
      qed
    qed
  qed
qed

theorem strategy_released_once_witness:
  "fst (main (observe_platform demo_platform) (map observe_case demo_cases) [''raw'', ''orm'']
         (Some [''ping'']) 2 3 ''out'' (0, [])) = Resolved
   \<and> calls_of (snd (main (observe_platform demo_platform) (map observe_case demo_cases)
         [''raw'', ''orm''] (Some [''ping'']) 2 3 ''out'' (0, [])))
     = Constructed RawSqlAdapter # replicate 5 (Invoked RawSqlAdapter ''ping'')
       @ Released RawSqlAdapter
       # Constructed PrismaAdapter # replicate 5 (Invoked PrismaAdapter ''ping'')
       @ [Released PrismaAdapter]
   \<and> released_once (calls_of (snd (main (observe_platform demo_platform)
         (map observe_case demo_cases) [''raw'', ''orm''] (Some [''ping'']) 2 3 ''out'' (0, []))))
   \<and> map Inr (constructed (calls_of (snd (main (observe_platform demo_platform)
         (map observe_case demo_cases) [''raw'', ''orm''] (Some [''ping'']) 2 3 ''out'' (0, [])))))
     = map createAdapter [''raw'', ''orm'']
   \<and> fst (main (observe_platform demo_platform) (map observe_case demo_cases) [''raw'', ''orm'']
         (Some [''ping'', ''bad_setup'', ''ping'']) 2 3 ''out'' (0, []))
     = Rejected (Error ''setup failed'')
   \<and> released_once (calls_of (snd (main (observe_platform demo_platform)
         (map observe_case demo_cases) [''raw'', ''orm''] (Some [''ping'', ''bad_setup'', ''ping''])
         2 3 ''out'' (0, []))))
   \<and> released (calls_of (snd (main (observe_platform demo_platform)
         (map observe_case demo_cases) [''raw'', ''orm''] (Some [''ping'', ''bad_setup'', ''ping''])
         2 3 ''out'' (0, [])))) = [RawSqlAdapter]"
proof -
  note a = strategy_released_once [of demo_platform demo_cases "[''raw'', ''orm'']"
      "Some [''ping'']" 2 3 "''out''" 0]
  note b = strategy_released_once [of demo_platform demo_cases "[''raw'', ''orm'']"
      "Some [''ping'', ''bad_setup'', ''ping'']" 2 3 "''out''" 0]
  show ?thesis
    using a b by (simp add: observed_main_resolved observed_main_setup_raises createAdapter_def)
qed

text \<open>
  Names that are neither registered nor inherited are rejected before anything runs: the
  process exits with status 1 after one message that names the offending input and lists the
  valid names, and the trace holds nothing else.
\<close>

lemma main_unknown_adapter:
  assumes "find (\<lambda>a. a \<notin> set ADAPTER_NAMES) adapterNames = Some a"
  shows "main pf cases adapterNames caseOpt wu it outDir w =
     (Exited 1, \<lparr> world = w, trace = [ConsoleError (unknown_adapter_message a)],
                  allResults = [] \<rparr>)"
  using assms by (simp add: main_def)

lemma main_unknown_case:
  assumes "find (\<lambda>a. a \<notin> set ADAPTER_NAMES) adapterNames = None"
    and "find (\<lambda>c. \<not> truthy (caseMap cases c)) caseNames = Some c"
  shows "main pf cases adapterNames (Some caseNames) wu it outDir w =
     (Exited 1, \<lparr> world = w, trace = [ConsoleError (unknown_case_message cases c)],
                  allResults = [] \<rparr>)"
  using assms by (simp add: main_def)

lemma main_rejects_missing_names:
  assumes "(\<exists>a \<in> set adapterNames. a \<notin> set ADAPTER_NAMES)
         \<or> (\<exists>c \<in> set caseNames. caseMap cases c = Missing)"
  shows "\<exists>msg. main pf cases adapterNames (Some caseNames) wu it outDir w =
     (Exited 1, \<lparr> world = w, trace = [ConsoleError msg], allResults = [] \<rparr>)"
proof (cases "find (\<lambda>a. a \<notin> set ADAPTER_NAMES) adapterNames")
  case (Some a)
  show ?thesis by (simp add: main_unknown_adapter [OF Some])
next
  case None
  then have "\<exists>c \<in> set caseNames. caseMap cases c = Missing"
    using assms by (auto simp: find_None_iff)
  then have "find (\<lambda>c. \<not> truthy (caseMap cases c)) caseNames \<noteq> None"
    by (auto simp: find_None_iff)
  then obtain c where "find (\<lambda>c. \<not> truthy (caseMap cases c)) caseNames = Some c"
    by blast
  then show ?thesis by (simp add: main_unknown_case [OF None])
qed

lemma demo_main_unknown_case:
  "main demo_platform demo_cases [''raw''] (Some [''ping'', ''pong'']) 2 3 ''out'' 0 =
     (Exited 1,
      \<lparr> world = 0,
        trace = [ConsoleError (''Unknown case '' @ [CHR 0x22] @ ''pong'' @ [CHR 0x22]
                  @ ''. Valid: ping, always_fails, cold_start, bad_teardown, bad_setup'')],
        allResults = [] \<rparr>)"
  by (simp add: main_eval unknown_case_message_def) (simp add: demo_cases_def)

lemma demo_main_unknown_adapter:
  "main demo_platform demo_cases [''raw'', ''pg''] (Some [''ping'']) 2 3 ''out'' 0 =
     (Exited 1,
      \<lparr> world = 0,
        trace = [ConsoleError (''Unknown adapter '' @ [CHR 0x22] @ ''pg'' @ [CHR 0x22]
                  @ ''. Valid: raw, knex, dal, orm'')],
        allResults = [] \<rparr>)"
  by (simp add: main_eval unknown_adapter_message_def)

text \<open>
  C7 fails for a case name that the registry does not hold but every plain object inherits.
  \<open>toString\<close> is not a registered case; \<^verbatim>\<open>caseMap['toString']\<close> is the inherited function,
  which is truthy, so the validation lets it pass: an adapter is constructed, \<open>runCase\<close> is
  called (each call of the missing \<^verbatim>\<open>run\<close> member raises and is counted as an error), both
  report files are written and the process ends with status 0 and no message.
\<close>

theorem inherited_name_passes_validation:
  "''toString'' \<notin> set (map name demo_cases)
   \<and> caseMap demo_cases ''toString'' = Inherited
   \<and> main demo_platform demo_cases [''raw''] (Some [''toString'']) 2 3 ''out'' 0 =
       (Resolved,
        \<lparr> world = 0,
          trace = [MkDir ''out'',
                   Created RawSqlAdapter, CaseRun RawSqlAdapter ''toString'', Closed RawSqlAdapter,
                   WroteJson [make_result ''raw'' ''toString'' 2 3 [0, 0, 0] 3],
                   WroteCsv (csv_header @ [CHR 0x0A]
                     @ ''raw,toString,3,0.000,0.000,0.000,0.000,0.000,0.000,3'')],
          allResults = [make_result ''raw'' ''toString'' 2 3 [0, 0, 0] 3] \<rparr>)
   \<and> exit_status (fst (main demo_platform demo_cases [''raw''] (Some [''toString'']) 2 3 ''out'' 0)) = 0"
proof -
  have "''toString'' \<notin> set (map name demo_cases)"
    by (simp add: demo_cases_def)
  moreover have "caseMap demo_cases ''toString'' = Inherited"
    by (simp add: caseMap_def demo_cases_def object_prototype_keys_def)
  ultimately show ?thesis
    by (simp add: demo_main_toString)
qed

text \<open>
  The summary table has the header line and then one line per result, in order; a statistic
  that is a finite number below \<open>10^21\<close> is printed with exactly three fractional digits
  (lemma \<open>toFixed3_finite\<close>).
\<close>

lemma sequence_Inr: "sequence xs = Inr ys \<Longrightarrow> xs = map Inr ys"
proof (induction xs arbitrary: ys)
  case Nil
  then show ?case by simp
next
  case (Cons x xs)
  then show ?case
    by (cases x; cases "sequence xs") auto
qed

lemma toCsv_rows:
  assumes "toCsv big results = Inr s"
  shows "\<exists>rows. map (csv_row big) results = map Inr rows
       \<and> length rows = length results
       \<and> s = join [CHR 0x0A] (csv_header # rows)"
proof -
  obtain rows where r: "sequence (map (csv_row big) results) = Inr rows"
    using assms by (cases "sequence (map (csv_row big) results)") (simp_all add: toCsv_def)
  have m: "map (csv_row big) results = map Inr rows"
    using sequence_Inr [OF r] .
  then have "length rows = length results"
    by (metis length_map)
  moreover have "s = join [CHR 0x0A] (csv_header # rows)"
    using assms r by (simp add: toCsv_def)
  ultimately show ?thesis using m by blast
qed

lemma fl_12_3: "fl 12.3 = 6924284427082138 / 2 ^ 49"
  by (subst fl_eval [where k = 49]) (simp_all add: round_half_even_def)

lemma toFixed3_example: "toFixed big 3 (Num (fl 12.3)) = Inr ''12.300''"
  by (simp add: fl_12_3 toFixed3_finite digits_eval)

text \<open>
  C9 fails for the result of a run with zero iterations: its mean is not a number and its
  cell of the summary table reads \<open>NaN\<close>, not a number with three fractional digits.
\<close>

theorem csv_mean_of_empty_run:
  "runCase demo_now demo_cases RawSqlAdapter ''ping'' ''raw'' 2 0 0
     = (Inr (make_result ''raw'' ''ping'' 2 0 [] 0), 2)
   \<and> toFixed big 3 (mean (make_result ''raw'' ''ping'' 2 0 [] 0)) = Inr ''NaN''
   \<and> toCsv big [make_result ''raw'' ''ping'' 2 0 [] 0]
     = Inr (csv_header @ [CHR 0x0A] @ ''raw,ping,0,NaN,0.000,0.000,0.000,0.000,0.000,0'')"
  by (simp add: demo_run_ping_zero csv_row_ping_zero toCsv_def computeStats_def)

end
